theory Spec2Isabelle
  imports Main "HOL-Library.Word" "HOL-Library.Multiset"
begin

section \<open>Strings, numbers and errors of the cipher engine\<close>

text \<open>
  A string of the source is a sequence of UTF-16 code units: \<open>length\<close>, indexing,
  \<open>split("")\<close> and \<open>charCodeAt\<close> all count code units. A code unit is a 16-bit word.
  \<open>str\<close> writes an ASCII literal as such a string.
\<close>

type_synonym jsstring = "16 word list"

definition str :: "string \<Rightarrow> jsstring" where
  "str s = map (\<lambda>c. of_nat (of_char c)) s"

text \<open>
  The \<open>number\<close> arguments (the Caesar shift, the rail count) come from \<open>parseInt\<close>,
  which returns an integer, an infinity (for a numeral too long for a double) or NaN.
  These are the values modelled; the integers are unbounded, and on them the
  arithmetic of the source is exact. A finite number that is not an integer, which
  the type \<open>number\<close> of the source allows as well, has no value here: what is stated
  below of every \<open>jsnumber\<close> is stated of NaN, the infinities and the integers.
\<close>

datatype jsnumber = NaN | PosInfinity | NegInfinity | Integer int

fun isNaN :: "jsnumber \<Rightarrow> bool" where
  "isNaN NaN = True"
| "isNaN _ = False"

text \<open>\<open>Number.isInteger\<close>.\<close>

fun isInteger :: "jsnumber \<Rightarrow> bool" where
  "isInteger (Integer n) = True"
| "isInteger _ = False"

fun addJs :: "jsnumber \<Rightarrow> jsnumber \<Rightarrow> jsnumber" where
  "addJs (Integer a) (Integer b) = Integer (a + b)"
| "addJs NaN _ = NaN"
| "addJs _ NaN = NaN"
| "addJs PosInfinity NegInfinity = NaN"
| "addJs NegInfinity PosInfinity = NaN"
| "addJs PosInfinity _ = PosInfinity"
| "addJs NegInfinity _ = NegInfinity"
| "addJs _ PosInfinity = PosInfinity"
| "addJs _ NegInfinity = NegInfinity"

fun negJs :: "jsnumber \<Rightarrow> jsnumber" where
  "negJs (Integer a) = Integer (- a)"
| "negJs NaN = NaN"
| "negJs PosInfinity = NegInfinity"
| "negJs NegInfinity = PosInfinity"

definition subJs :: "jsnumber \<Rightarrow> jsnumber \<Rightarrow> jsnumber" where
  "subJs a b = addJs a (negJs b)"

text \<open>
  The remainder \<open>%\<close> of the source truncates: its result has the sign of the dividend.
\<close>

fun remJs :: "jsnumber \<Rightarrow> jsnumber \<Rightarrow> jsnumber" where
  "remJs (Integer a) (Integer b) =
     (if b = 0 then NaN else Integer (sgn a * (\<bar>a\<bar> mod \<bar>b\<bar>)))"
| "remJs (Integer a) PosInfinity = Integer a"
| "remJs (Integer a) NegInfinity = Integer a"
| "remJs _ _ = NaN"

text \<open>\<open>String.fromCharCode\<close> takes its argument modulo \<open>2^16\<close>; NaN and the infinities give 0.\<close>

fun fromCharCode :: "jsnumber \<Rightarrow> 16 word" where
  "fromCharCode (Integer n) = word_of_int n"
| "fromCharCode _ = 0"

datatype mode = Encrypt | Decrypt

text \<open>
  Every \<open>throw new Error(...)\<close> of the source is one constructor, in the order of the
  source. The specification files \<open>InvalidCaesarKey\<close>, \<open>InvalidRailCount\<close>,
  \<open>InvalidTranspositionKey\<close>, \<open>InvalidPlayfairKey\<close> and \<open>OddLengthToDecrypt\<close> under
  its \<open>InvalidKey\<close>. \<open>TypeError\<close> and \<open>RangeError\<close> are the errors of the runtime:
  a method call or an assignment on a row that does not exist, and an array of
  more than \<open>2^32 - 1\<close> elements. The character of \<open>CharacterNotFound\<close> is \<open>None\<close> when the
  character looked up is \<open>undefined\<close>.
\<close>

datatype error =
    InvalidCaesarKey
  | InvalidRailCount
  | InvalidTranspositionKey
  | NoLetterToEncrypt
  | InvalidPlayfairKey
  | CharacterNotFound "16 word option"
  | NoLetterToDecrypt
  | OddLengthToDecrypt
  | TypeError
  | RangeError

text \<open>The character classes of the regular expressions, on code units.\<close>

definition isUpperAZ :: "16 word \<Rightarrow> bool" where
  "isUpperAZ c = (65 \<le> uint c \<and> uint c \<le> 90)"

definition isLowerAZ :: "16 word \<Rightarrow> bool" where
  "isLowerAZ c = (97 \<le> uint c \<and> uint c \<le> 122)"

text \<open>
  \<open>/[a-z]/i\<close> has no \<open>u\<close> flag: only the ASCII letters of either case match it.
\<close>

definition isAsciiLetter :: "16 word \<Rightarrow> bool" where
  "isAsciiLetter c = (isLowerAZ c \<or> isUpperAZ c)"

section \<open>Caesar cipher\<close>

text \<open>
  \<open>caesarShift\<close> is the constant \<open>s\<close> of the source, and \<open>caesarChar\<close> the function
  that it maps over the code units of the text; \<open>charCodeAt\<close> is \<open>uint\<close>.
\<close>

definition caesarShift :: "jsnumber \<Rightarrow> mode \<Rightarrow> jsnumber" where
  "caesarShift shift mode =
     (if mode = Encrypt
      then remJs (addJs (remJs shift (Integer 26)) (Integer 26)) (Integer 26)
      else remJs (subJs (Integer 26)
             (remJs (addJs (remJs shift (Integer 26)) (Integer 26)) (Integer 26)))
             (Integer 26))"

definition caesarChar :: "jsnumber \<Rightarrow> 16 word \<Rightarrow> 16 word" where
  "caesarChar s char =
     (if isAsciiLetter char
      then (let code = uint char;
                base = (if code \<ge> 65 \<and> code \<le> 90 then 65 else 97)
            in fromCharCode
                 (addJs (remJs (addJs (Integer (code - base)) s) (Integer 26)) (Integer base)))
      else char)"

definition caesarCipher :: "jsstring \<Rightarrow> jsnumber \<Rightarrow> mode \<Rightarrow> error + jsstring" where
  "caesarCipher text shift mode =
     (if isNaN shift then Inl InvalidCaesarKey
      else Inr (map (caesarChar (caesarShift shift mode)) text))"

section \<open>Rail fence cipher\<close>

fun lessJs :: "jsnumber \<Rightarrow> jsnumber \<Rightarrow> bool" where
  "lessJs (Integer a) (Integer b) = (a < b)"
| "lessJs NaN _ = False"
| "lessJs _ NaN = False"
| "lessJs PosInfinity _ = False"
| "lessJs _ NegInfinity = False"
| "lessJs NegInfinity _ = True"
| "lessJs _ PosInfinity = True"

text \<open>
  \<open>for (const char of text)\<close> runs the string iterator, which yields code points:
  a high surrogate followed by a low surrogate is one step of the loop, and the
  string pushed is the pair. Every other code unit is a step of its own.
\<close>

definition isHighSurrogate :: "16 word \<Rightarrow> bool" where
  "isHighSurrogate c = (55296 \<le> uint c \<and> uint c \<le> 56319)"

definition isLowSurrogate :: "16 word \<Rightarrow> bool" where
  "isLowSurrogate c = (56320 \<le> uint c \<and> uint c \<le> 57343)"

fun codePoints :: "jsstring \<Rightarrow> jsstring list" where
  "codePoints [] = []"
| "codePoints [c] = [[c]]"
| "codePoints (c # d # cs) =
     (if isHighSurrogate c \<and> isLowSurrogate d then [c, d] # codePoints cs
      else [c] # codePoints (d # cs))"

text \<open>
  The two lines that end the body of each of the three zig-zag loops:
  \<open>rail += direction; if (rail === 0 || rail === rails - 1) direction *= -1\<close>.
\<close>

definition zigzag :: "int \<Rightarrow> int \<times> int \<Rightarrow> int \<times> int" where
  "zigzag rails = (\<lambda>(rail, direction).
     (let rail = rail + direction
      in (rail, if rail = 0 \<or> rail = rails - 1 then direction * (- 1) else direction)))"

text \<open>
  \<open>fence[rail]\<close> is \<open>undefined\<close> when \<open>rail\<close> is not an index of \<open>fence\<close>, and the
  call of \<open>push\<close> on it (or the assignment to its element) throws a TypeError.
\<close>

fun pushChars :: "int \<Rightarrow> jsstring list \<Rightarrow> jsstring list list \<Rightarrow> int \<times> int
    \<Rightarrow> error + jsstring list list" where
  "pushChars rails [] fence (rail, direction) = Inr fence"
| "pushChars rails (char # rest) fence (rail, direction) =
     (if 0 \<le> rail \<and> rail < int (length fence)
      then pushChars rails rest (fence[nat rail := fence ! nat rail @ [char]])
             (zigzag rails (rail, direction))
      else Inl TypeError)"

text \<open>
  \<open>Array.from({ length: rails }, ...)\<close> throws a RangeError where \<open>rails\<close> is above
  \<open>2^32 - 1\<close>, the greatest length of an array, or infinite.
\<close>

definition railFenceEncrypt :: "jsstring \<Rightarrow> jsnumber \<Rightarrow> error + jsstring" where
  "railFenceEncrypt text rails =
     (if isNaN rails \<or> lessJs rails (Integer 2) then Inl InvalidRailCount
      else case rails of
        Integer n \<Rightarrow>
          (if n > 4294967295 then Inl RangeError
           else case pushChars n (codePoints text) (replicate (nat n) []) (0, 1) of
             Inl e \<Rightarrow> Inl e
           | Inr fence \<Rightarrow> Inr (concat (concat fence)))
      | _ \<Rightarrow> Inl RangeError)"

text \<open>
  A cell of the decryption fence is \<open>null\<close> or a string: the mark \<open>"*"\<close> or one code
  unit of the ciphertext. The rows are built with the length of the ciphertext, and
  the column indices of the three passes stay below it.
\<close>

datatype cell = Null | Str jsstring

fun markCells :: "int \<Rightarrow> nat list \<Rightarrow> cell list list \<Rightarrow> int \<times> int
    \<Rightarrow> error + cell list list" where
  "markCells rails [] fence (rail, direction) = Inr fence"
| "markCells rails (i # rest) fence (rail, direction) =
     (if 0 \<le> rail \<and> rail < int (length fence)
      then markCells rails rest (fence[nat rail := (fence ! nat rail)[i := Str (str ''*'')]])
             (zigzag rails (rail, direction))
      else Inl TypeError)"

definition fillCell :: "jsstring \<Rightarrow> nat \<Rightarrow> nat \<Rightarrow> cell list list \<times> nat \<Rightarrow> cell list list \<times> nat" where
  "fillCell cipherText r c = (\<lambda>(fence, index).
     (if fence ! r ! c = Str (str ''*'') \<and> index < length cipherText
      then (fence[r := (fence ! r)[c := Str [cipherText ! index]]], index + 1)
      else (fence, index)))"

definition fillCells :: "jsstring \<Rightarrow> nat \<Rightarrow> cell list list \<Rightarrow> cell list list" where
  "fillCells cipherText rails fence =
     fst (fold (\<lambda>r. fold (fillCell cipherText r) [0..<length cipherText]) [0..<rails] (fence, 0))"

text \<open>\<open>result += fence[rail][i]\<close> appends the text \<open>null\<close> for an empty cell.\<close>

fun cellText :: "cell \<Rightarrow> jsstring" where
  "cellText Null = str ''null''"
| "cellText (Str s) = s"

fun readCells :: "int \<Rightarrow> nat list \<Rightarrow> cell list list \<Rightarrow> int \<times> int \<Rightarrow> jsstring
    \<Rightarrow> error + jsstring" where
  "readCells rails [] fence (rail, direction) result = Inr result"
| "readCells rails (i # rest) fence (rail, direction) result =
     (if 0 \<le> rail \<and> rail < int (length fence)
      then readCells rails rest fence (zigzag rails (rail, direction))
             (result @ cellText (fence ! nat rail ! i))
      else Inl TypeError)"

definition railFenceDecrypt :: "jsstring \<Rightarrow> jsnumber \<Rightarrow> error + jsstring" where
  "railFenceDecrypt cipherText rails =
     (if isNaN rails \<or> lessJs rails (Integer 2) then Inl InvalidRailCount
      else if cipherText = [] then Inr []
      else case rails of
        Integer n \<Rightarrow>
          (if n > 4294967295 then Inl RangeError
           else
             (let len = length cipherText
              in case markCells n [0..<len] (replicate (nat n) (replicate len Null)) (0, 1) of
                   Inl e \<Rightarrow> Inl e
                 | Inr fence \<Rightarrow>
                     readCells n [0..<len] (fillCells cipherText (nat n) fence) (0, 1) []))
      | _ \<Rightarrow> Inl RangeError)"

section \<open>Sanitizing keys and texts\<close>

text \<open>
  \<open>toUpperCase\<close> maps every code point by the Unicode tables of the runtime. Every
  call of it in the source is followed by \<open>replace(/[^A-Z]/g, "")\<close>, so what matters
  of a code unit is the letters \<open>A\<close> to \<open>Z\<close> in its upper-case form: the lower-case
  ASCII letters, and the seventeen other characters below, whose upper-case form
  has one, two or three of these letters. Every other code unit is left as it is:
  its upper-case form has no such letter, and the next step removes it.
\<close>

definition upperCaseUnit :: "16 word \<Rightarrow> jsstring" where
  "upperCaseUnit c =
     (if isLowerAZ c then [c - 32]
      else if c = 223 then str ''SS''
      else if c = 305 then str ''I''
      else if c = 329 then [700, 78]
      else if c = 383 then str ''S''
      else if c = 496 then [74, 780]
      else if c = 7830 then [72, 817]
      else if c = 7831 then [84, 776]
      else if c = 7832 then [87, 778]
      else if c = 7833 then [89, 778]
      else if c = 7834 then [65, 702]
      else if c = 64256 then str ''FF''
      else if c = 64257 then str ''FI''
      else if c = 64258 then str ''FL''
      else if c = 64259 then str ''FFI''
      else if c = 64260 then str ''FFL''
      else if c = 64261 then str ''ST''
      else if c = 64262 then str ''ST''
      else [c])"

definition toUpperCase :: "jsstring \<Rightarrow> jsstring" where
  "toUpperCase s = concat (map upperCaseUnit s)"

text \<open>\<open>replace(/J/g, "I")\<close> and \<open>replace(/[^A-Z]/g, "")\<close>.\<close>

definition replaceJ :: "jsstring \<Rightarrow> jsstring" where
  "replaceJ s = map (\<lambda>c. if c = 74 then 73 else c) s"

definition keepAZ :: "jsstring \<Rightarrow> jsstring" where
  "keepAZ s = filter isUpperAZ s"

section \<open>Columnar transposition cipher\<close>

record keyEntry =
  char :: "16 word"
  index :: nat

text \<open>
  \<open>localeCompare\<close> is called on single letters \<open>A\<close> to \<open>Z\<close> only. Its order is the one
  of the default locale of the runtime; it is modelled by the order of the code
  units, which is the alphabetical order of most locales. A locale that orders these
  letters otherwise gives another order of the columns, and other ciphertexts. What
  is proved below of the transposition uses of the sorted key only that it has every
  column once, which holds of every comparison.
\<close>

definition localeCompare :: "16 word \<Rightarrow> 16 word \<Rightarrow> int" where
  "localeCompare a b = (if a < b then - 1 else if a = b then 0 else 1)"

definition keyCompare :: "keyEntry \<Rightarrow> keyEntry \<Rightarrow> int" where
  "keyCompare a b =
     (if localeCompare (char a) (char b) \<noteq> 0 then localeCompare (char a) (char b)
      else int (index a) - int (index b))"

text \<open>\<open>Array.prototype.sort\<close> with a comparison function is a stable sort.\<close>

fun insertBy :: "('a \<Rightarrow> 'a \<Rightarrow> int) \<Rightarrow> 'a \<Rightarrow> 'a list \<Rightarrow> 'a list" where
  "insertBy cmp x [] = [x]"
| "insertBy cmp x (y # ys) = (if cmp x y \<le> 0 then x # y # ys else y # insertBy cmp x ys)"

fun sortBy :: "('a \<Rightarrow> 'a \<Rightarrow> int) \<Rightarrow> 'a list \<Rightarrow> 'a list" where
  "sortBy cmp [] = []"
| "sortBy cmp (x # xs) = insertBy cmp x (sortBy cmp xs)"

definition keyOrder :: "jsstring \<Rightarrow> keyEntry list" where
  "keyOrder sanitizedKey =
     sortBy keyCompare
       (map (\<lambda>i. \<lparr>char = sanitizedKey ! i, index = i\<rparr>) [0..<length sanitizedKey])"

text \<open>\<open>Math.ceil(a / b)\<close> for lengths \<open>a\<close> and \<open>b > 0\<close>.\<close>

definition ceilDiv :: "nat \<Rightarrow> nat \<Rightarrow> nat" where
  "ceilDiv a b = (a + b - 1) div b"

text \<open>
  A cell of the grid is a string: empty, or one code unit of the text. The row and
  column indices of all loops are below \<open>numRows\<close> and \<open>numCols\<close>.
\<close>

definition fillRowMajor :: "jsstring \<Rightarrow> nat \<Rightarrow> jsstring list list \<Rightarrow> jsstring list list" where
  "fillRowMajor text numCols grid =
     fold (\<lambda>i grid. grid[i div numCols := (grid ! (i div numCols))[i mod numCols := [text ! i]]])
       [0..<length text] grid"

definition readColumn :: "jsstring list list \<Rightarrow> nat \<Rightarrow> nat \<Rightarrow> jsstring \<Rightarrow> jsstring" where
  "readColumn grid numRows colIndex result =
     fold (\<lambda>row result. if grid ! row ! colIndex \<noteq> [] then result @ grid ! row ! colIndex
                         else result)
       [0..<numRows] result"

definition columnarTranspositionEncrypt :: "jsstring \<Rightarrow> jsstring \<Rightarrow> error + jsstring" where
  "columnarTranspositionEncrypt text key =
     (let sanitizedKey = keepAZ (toUpperCase key)
      in if sanitizedKey = [] then Inl InvalidTranspositionKey
         else
           (let numCols = length sanitizedKey;
                numRows = ceilDiv (length text) numCols;
                keyArr = keyOrder sanitizedKey;
                grid = fillRowMajor text numCols (replicate numRows (replicate numCols []))
            in Inr (fold (\<lambda>k result. readColumn grid numRows (index k) result) keyArr [])))"

definition fillColumn :: "jsstring \<Rightarrow> nat \<Rightarrow> nat \<Rightarrow> jsstring list list \<times> nat
    \<Rightarrow> jsstring list list \<times> nat" where
  "fillColumn cipherText colIndex colLen =
     fold (\<lambda>row (grid, charIndex).
             if charIndex < length cipherText
             then (grid[row := (grid ! row)[colIndex := [cipherText ! charIndex]]], charIndex + 1)
             else (grid, charIndex))
       [0..<colLen]"

definition readRowMajor :: "jsstring list list \<Rightarrow> nat \<Rightarrow> nat \<Rightarrow> jsstring" where
  "readRowMajor grid numRows numCols =
     fold (\<lambda>row. fold (\<lambda>col result. result @ grid ! row ! col) [0..<numCols]) [0..<numRows] []"

definition columnarTranspositionDecrypt :: "jsstring \<Rightarrow> jsstring \<Rightarrow> error + jsstring" where
  "columnarTranspositionDecrypt cipherText key =
     (let sanitizedKey = keepAZ (toUpperCase key)
      in if sanitizedKey = [] then Inl InvalidTranspositionKey
         else
           (let numCols = length sanitizedKey;
                len = length cipherText;
                numRows = ceilDiv len numCols;
                fullCols = len mod numCols;
                keyArr = keyOrder sanitizedKey;
                grid = fst (fold (\<lambda>k. fillColumn cipherText (index k)
                                     (if fullCols = 0 \<or> index k < fullCols then numRows
                                      else numRows - 1))
                              keyArr (replicate numRows (replicate numCols []), 0))
            in Inr (readRowMajor grid numRows numCols)))"

section \<open>Playfair cipher\<close>

definition sanitizeText :: "jsstring \<Rightarrow> jsstring" where
  "sanitizeText text = keepAZ (replaceJ (toUpperCase text))"

text \<open>
  The loop of \<open>preparePlayfairText\<close>, on what is left of \<open>res\<close> from index \<open>i\<close> on:
  \<open>res[i]\<close> is its head, and \<open>i + 1 < res.length\<close> says that a second element follows.
\<close>

fun insertFillers :: "jsstring \<Rightarrow> jsstring \<Rightarrow> jsstring" where
  "insertFillers [] prepared = prepared"
| "insertFillers (c # rest) prepared =
     (let prepared = prepared @ [c]
      in if length prepared mod 2 \<noteq> 0 \<and> rest \<noteq> [] \<and> c = hd rest
         then insertFillers rest (prepared @ str ''X'')
         else insertFillers rest prepared)"

definition preparePlayfairText :: "jsstring \<Rightarrow> error + jsstring" where
  "preparePlayfairText text =
     (let res = sanitizeText text
      in if res = [] then Inl NoLetterToEncrypt
         else
           (let prepared = insertFillers res []
            in Inr (if length prepared mod 2 \<noteq> 0 then prepared @ str ''X'' else prepared)))"

definition alphabet :: jsstring where
  "alphabet = str ''ABCDEFGHIKLMNOPQRSTUVWXYZ''"

text \<open>
  \<open>Array.from(new Set(xs))\<close>: the elements of \<open>xs\<close> in the order of their first
  occurrence.
\<close>

definition uniqueChars :: "jsstring \<Rightarrow> jsstring" where
  "uniqueChars xs = fold (\<lambda>c seen. if c \<in> set seen then seen else seen @ [c]) xs []"

definition slice :: "'a list \<Rightarrow> nat \<Rightarrow> nat \<Rightarrow> 'a list" where
  "slice xs from to = take (to - from) (drop from xs)"

text \<open>The loop that pushes the five rows of the matrix.\<close>

definition matrixRows :: "jsstring \<Rightarrow> jsstring list" where
  "matrixRows unique = map (\<lambda>i. slice unique (i * 5) (i * 5 + 5)) [0..<5]"

definition createPlayfairMatrix :: "jsstring \<Rightarrow> error + jsstring list" where
  "createPlayfairMatrix key =
     (let sanitizedKey = keepAZ (replaceJ (toUpperCase key) @ alphabet)
      in if length sanitizedKey = 0 then Inl InvalidPlayfairKey
         else Inr (matrixRows (uniqueChars sanitizedKey)))"

text \<open>
  The matrix has five rows, of the letters there are; a cell \<open>matrix[r][c]\<close> beyond
  the end of its row is \<open>undefined\<close>, here \<open>None\<close>. So is \<open>prepared[i + 1]\<close> beyond the
  end of the text.
\<close>

definition cellAt :: "jsstring list \<Rightarrow> nat \<Rightarrow> nat \<Rightarrow> 16 word option" where
  "cellAt matrix r c = (if c < length (matrix ! r) then Some (matrix ! r ! c) else None)"

definition findPos :: "jsstring list \<Rightarrow> 16 word option \<Rightarrow> error + nat \<times> nat" where
  "findPos matrix ch =
     (case find (\<lambda>(r, c). cellAt matrix r c = ch) (List.product [0..<5] [0..<5]) of
        Some pos \<Rightarrow> Inr pos
      | None \<Rightarrow> Inl (CharacterNotFound ch))"

text \<open>
  \<open>+\<close> on two cells: two letters are concatenated; \<open>undefined\<close> beside a letter reads
  as the text \<open>undefined\<close>, and two \<open>undefined\<close> add up to NaN.
\<close>

fun plusCells :: "16 word option \<Rightarrow> 16 word option \<Rightarrow> jsstring" where
  "plusCells (Some a) (Some b) = [a, b]"
| "plusCells (Some a) None = a # str ''undefined''"
| "plusCells None (Some b) = str ''undefined'' @ [b]"
| "plusCells None None = str ''NaN''"

fun digraphs :: "jsstring \<Rightarrow> (16 word option \<times> 16 word option) list" where
  "digraphs [] = []"
| "digraphs [a] = [(Some a, None)]"
| "digraphs (a # b # rest) = (Some a, Some b) # digraphs rest"

definition substitutePair :: "jsstring list \<Rightarrow> mode \<Rightarrow> 16 word option \<times> 16 word option
    \<Rightarrow> error + jsstring" where
  "substitutePair matrix mode = (\<lambda>(a, b).
     case findPos matrix a of
       Inl e \<Rightarrow> Inl e
     | Inr (r1, c1) \<Rightarrow>
        (case findPos matrix b of
           Inl e \<Rightarrow> Inl e
         | Inr (r2, c2) \<Rightarrow>
            (let shift = (if mode = Encrypt then 1 else 4)
             in if r1 = r2
                then Inr (plusCells (cellAt matrix r1 ((c1 + shift) mod 5))
                                    (cellAt matrix r2 ((c2 + shift) mod 5)))
                else if c1 = c2
                then Inr (plusCells (cellAt matrix ((r1 + shift) mod 5) c1)
                                    (cellAt matrix ((r2 + shift) mod 5) c2))
                else Inr (plusCells (cellAt matrix r1 c2) (cellAt matrix r2 c1)))))"

fun substituteAll :: "jsstring list \<Rightarrow> mode \<Rightarrow> (16 word option \<times> 16 word option) list
    \<Rightarrow> jsstring \<Rightarrow> error + jsstring" where
  "substituteAll matrix mode [] result = Inr result"
| "substituteAll matrix mode (p # ps) result =
     (case substitutePair matrix mode p of
        Inl e \<Rightarrow> Inl e
      | Inr s \<Rightarrow> substituteAll matrix mode ps (result @ s))"

definition playfairCipher :: "jsstring \<Rightarrow> jsstring \<Rightarrow> mode \<Rightarrow> error + jsstring" where
  "playfairCipher text key mode =
     (case createPlayfairMatrix key of
        Inl e \<Rightarrow> Inl e
      | Inr matrix \<Rightarrow>
         (case (if mode = Encrypt then preparePlayfairText text else Inr (sanitizeText text)) of
            Inl e \<Rightarrow> Inl e
          | Inr prepared \<Rightarrow>
             if mode = Decrypt \<and> prepared = [] then Inl NoLetterToDecrypt
             else if mode = Decrypt \<and> length prepared mod 2 \<noteq> 0 then Inl OddLengthToDecrypt
             else substituteAll matrix mode (digraphs prepared) []))"

section \<open>Notions used in the proofs\<close>

text \<open>
  The grid of the transposition with a cell \<open>(r, c)\<close> filled from the text where
  \<open>P r c\<close> holds and empty elsewhere; the length that the decryption computes for a
  column; and the text of a column, read from top to bottom.
\<close>

definition cells :: "jsstring \<Rightarrow> nat \<Rightarrow> nat \<Rightarrow> (nat \<Rightarrow> nat \<Rightarrow> bool) \<Rightarrow> jsstring list list" where
  "cells t n R P = map (\<lambda>r. map (\<lambda>c. if P r c then [t ! (r * n + c)] else []) [0..<n]) [0..<R]"

definition columnLength :: "nat \<Rightarrow> nat \<Rightarrow> nat \<Rightarrow> nat" where
  "columnLength len n c =
     (if len mod n = 0 \<or> c < len mod n then ceilDiv len n else ceilDiv len n - 1)"

definition columnText :: "jsstring \<Rightarrow> nat \<Rightarrow> nat \<Rightarrow> jsstring" where
  "columnText t n c = map (\<lambda>r. t ! (r * n + c)) [0..<columnLength (length t) n c]"

text \<open>
  The rails that the zig-zag visits in its next \<open>k\<close> steps, the states it can be
  in (a rail of the fence, moving down from the top rail and up from the bottom
  one), a grid given by the content of its cells, and the positions of a text that
  fall on a rail.
\<close>

fun railPath :: "int \<Rightarrow> int \<times> int \<Rightarrow> nat \<Rightarrow> nat list" where
  "railPath rails st 0 = []"
| "railPath rails st (Suc k) = nat (fst st) # railPath rails (zigzag rails st) k"

definition onFence :: "int \<Rightarrow> int \<times> int \<Rightarrow> bool" where
  "onFence rails = (\<lambda>(rail, direction).
     0 \<le> rail \<and> rail \<le> rails - 1 \<and> (direction = 1 \<or> direction = - 1) \<and>
     (rail = 0 \<longrightarrow> direction = 1) \<and> (rail = rails - 1 \<longrightarrow> direction = - 1))"

definition gridOf :: "nat \<Rightarrow> nat \<Rightarrow> (nat \<Rightarrow> nat \<Rightarrow> 'a) \<Rightarrow> 'a list list" where
  "gridOf n len f = map (\<lambda>j. map (f j) [0..<len]) [0..<n]"

definition onRail :: "nat list \<Rightarrow> nat \<Rightarrow> nat list" where
  "onRail p j = filter (\<lambda>i. p ! i = j) [0..<length p]"

section \<open>Properties of the Caesar cipher\<close>

lemma caesarShift_Encrypt: "caesarShift (Integer s) Encrypt = Integer (s mod 26)"
proof (cases "0 \<le> s")
  case True
  then show ?thesis by (simp add: caesarShift_def sgn_if)
next
  case False
  then have "(26 - (- s) mod 26) mod 26 = s mod 26"
    by (metis add.commute add.inverse_inverse mod_add_self1 mod_diff_right_eq uminus_add_conv_diff)
  with False show ?thesis
    by (simp add: caesarShift_def sgn_if abs_if)
qed

lemma caesarShift_Decrypt: "caesarShift (Integer s) Decrypt = Integer ((26 - s mod 26) mod 26)"
proof -
  have "remJs (addJs (remJs (Integer s) (Integer 26)) (Integer 26)) (Integer 26) = Integer (s mod 26)"
    using caesarShift_Encrypt [of s] by (simp add: caesarShift_def)
  then show ?thesis
    by (simp add: caesarShift_def subJs_def sgn_if abs_if)
qed

lemma caesarChar_upper:
  assumes "isUpperAZ c" "0 \<le> k" "k < 26"
  shows "caesarChar (Integer k) c = word_of_int ((uint c - 65 + k) mod 26 + 65)"
  using assms by (simp add: caesarChar_def isAsciiLetter_def isUpperAZ_def Let_def sgn_if)

lemma caesarChar_lower:
  assumes "isLowerAZ c" "0 \<le> k" "k < 26"
  shows "caesarChar (Integer k) c = word_of_int ((uint c - 97 + k) mod 26 + 97)"
  using assms by (auto simp add: caesarChar_def isAsciiLetter_def isUpperAZ_def isLowerAZ_def Let_def sgn_if)

lemma caesarChar_other: "\<not> isAsciiLetter c \<Longrightarrow> caesarChar s c = c"
  by (simp add: caesarChar_def)

lemma uint_code: "0 \<le> y \<Longrightarrow> y < 65536 \<Longrightarrow> uint (word_of_int y :: 16 word) = y"
  by (simp add: uint_word_of_int)

lemma uint_caesar_upper:
  "uint (word_of_int (x mod 26) + 65 :: 16 word) = x mod 26 + 65"
proof -
  have "0 \<le> x mod 26" "x mod 26 < 26" by simp_all
  then have "uint (word_of_int (x mod 26 + 65) :: 16 word) = x mod 26 + 65"
    by (intro uint_code) linarith+
  then show ?thesis by simp
qed

lemma uint_caesar_lower:
  "uint (word_of_int (x mod 26) + 97 :: 16 word) = x mod 26 + 97"
proof -
  have "0 \<le> x mod 26" "x mod 26 < 26" by simp_all
  then have "uint (word_of_int (x mod 26 + 97) :: 16 word) = x mod 26 + 97"
    by (intro uint_code) linarith+
  then show ?thesis by simp
qed

lemma caesarChar_keeps_upper:
  assumes "isUpperAZ c" "0 \<le> k" "k < 26"
  shows "isUpperAZ (caesarChar (Integer k) c)"
proof -
  have "0 \<le> (uint c - 65 + k) mod 26" "(uint c - 65 + k) mod 26 < 26" by simp_all
  then show ?thesis using assms by (simp add: caesarChar_upper isUpperAZ_def uint_caesar_upper)
qed

lemma caesarChar_keeps_lower:
  assumes "isLowerAZ c" "0 \<le> k" "k < 26"
  shows "isLowerAZ (caesarChar (Integer k) c)"
proof -
  have "0 \<le> (uint c - 97 + k) mod 26" "(uint c - 97 + k) mod 26 < 26" by simp_all
  then show ?thesis using assms by (simp add: caesarChar_lower isLowerAZ_def uint_caesar_lower)
qed

lemma caesarChar_inverse:
  assumes "0 \<le> k" "k < 26"
  shows "caesarChar (Integer ((26 - k) mod 26)) (caesarChar (Integer k) c) = c"
proof -
  let ?k' = "(26 - k) mod 26"
  have k': "0 \<le> ?k'" "?k' < 26" by simp_all
  consider (up) "isUpperAZ c" | (lo) "isLowerAZ c" | (other) "\<not> isAsciiLetter c"
    by (auto simp: isAsciiLetter_def)
  then show ?thesis
  proof cases
    case up
    then have r: "0 \<le> uint c - 65" "uint c - 65 < 26" by (simp_all add: isUpperAZ_def)
    have "((uint c - 65 + k) mod 26 + ?k') mod 26 = (uint c - 65 + (k + (26 - k))) mod 26"
      by (metis (no_types, opaque_lifting) add.assoc mod_add_eq)
    also have "\<dots> = (uint c - 65) mod 26" by (simp del: mod_add_self2 add: mod_add_self2 [of "uint c - 65" 26, symmetric])
    also have "\<dots> = uint c - 65" using r by simp
    finally have "((uint c - 65 + k) mod 26 + ?k') mod 26 + 65 = uint c" by simp
    moreover have "isUpperAZ (caesarChar (Integer k) c)"
      using up assms by (rule caesarChar_keeps_upper)
    ultimately show ?thesis
      using caesarChar_upper [OF _ k', of "caesarChar (Integer k) c"]
      by (simp add: caesarChar_upper [OF up assms] uint_caesar_upper)
  next
    case lo
    then have r: "0 \<le> uint c - 97" "uint c - 97 < 26" by (simp_all add: isLowerAZ_def)
    have "((uint c - 97 + k) mod 26 + ?k') mod 26 = (uint c - 97 + (k + (26 - k))) mod 26"
      by (metis (no_types, opaque_lifting) add.assoc mod_add_eq)
    also have "\<dots> = (uint c - 97) mod 26" by (simp del: mod_add_self2 add: mod_add_self2 [of "uint c - 97" 26, symmetric])
    also have "\<dots> = uint c - 97" using r by simp
    finally have "((uint c - 97 + k) mod 26 + ?k') mod 26 + 97 = uint c" by simp
    moreover have "isLowerAZ (caesarChar (Integer k) c)"
      using lo assms by (rule caesarChar_keeps_lower)
    ultimately show ?thesis
      using caesarChar_lower [OF _ k', of "caesarChar (Integer k) c"]
      by (simp add: caesarChar_lower [OF lo assms] uint_caesar_lower)
  next
    case other
    then show ?thesis by (simp add: caesarChar_other)
  qed
qed

lemma caesarShift_Integer:
  "\<exists>k. 0 \<le> k \<and> k < 26 \<and> caesarShift (Integer s) m = Integer k"
  by (cases m) (simp_all add: caesarShift_Encrypt caesarShift_Decrypt)

lemma caesarChar_cases:
  assumes "0 \<le> k" "k < 26"
  shows "(\<not> isAsciiLetter c \<longrightarrow> caesarChar (Integer k) c = c) \<and>
         (isUpperAZ c \<longrightarrow> isUpperAZ (caesarChar (Integer k) c)) \<and>
         (isLowerAZ c \<longrightarrow> isLowerAZ (caesarChar (Integer k) c))"
  using assms by (simp add: caesarChar_other caesarChar_keeps_upper caesarChar_keeps_lower)

lemma caesar_roundtrip_any_text:
  "caesarCipher t (Integer s) Encrypt = Inr (map (caesarChar (Integer (s mod 26))) t) \<and>
   caesarCipher (map (caesarChar (Integer (s mod 26))) t) (Integer s) Decrypt = Inr t"
proof -
  have "0 \<le> s mod 26" "s mod 26 < 26" by simp_all
  then have "caesarChar (Integer ((26 - s mod 26) mod 26)) (caesarChar (Integer (s mod 26)) c) = c" for c
    by (rule caesarChar_inverse)
  then have "map (caesarChar (Integer ((26 - s mod 26) mod 26))) (map (caesarChar (Integer (s mod 26))) t) = t"
    by (simp add: map_idI)
  then show ?thesis
    by (simp add: caesarCipher_def caesarShift_Encrypt caesarShift_Decrypt)
qed

text \<open>
  Claim C7. For every integer shift \<open>s\<close> and every text \<open>t\<close> of ASCII letters only,
  decrypting with \<open>s\<close> what \<open>caesarCipher\<close> encrypted with \<open>s\<close> returns \<open>t\<close>.
\<close>

theorem caesar_roundtrip:
  assumes "list_all isAsciiLetter t"
  shows "\<exists>c. caesarCipher t (Integer s) Encrypt = Inr c \<and> caesarCipher c (Integer s) Decrypt = Inr t"
  using caesar_roundtrip_any_text [of t s] by blast

theorem caesar_roundtrip_witness:
  "list_all isAsciiLetter (str ''Attack'') \<and>
   caesarCipher (str ''Attack'') (Integer 3) Encrypt = Inr (str ''Dwwdfn'') \<and>
   caesarCipher (str ''Dwwdfn'') (Integer 3) Decrypt = Inr (str ''Attack'')"
proof -
  have h: "list_all isAsciiLetter (str ''Attack'')"
    by (simp add: str_def isAsciiLetter_def isUpperAZ_def isLowerAZ_def)
  have e: "caesarCipher (str ''Attack'') (Integer 3) Encrypt = Inr (str ''Dwwdfn'')"
    by (simp add: caesarCipher_def caesarChar_def caesarShift_def str_def isAsciiLetter_def
        isUpperAZ_def isLowerAZ_def)
  from caesar_roundtrip [OF h, of 3] e h show ?thesis by simp
qed

text \<open>
  Claim C8. For every integer shift and either direction, \<open>caesarCipher\<close> returns
  a text of the length of its input whose character at each position is a function
  of the input character at that position alone: a character that is not an ASCII
  letter is unchanged, an upper-case letter gives an upper-case letter and a
  lower-case letter a lower-case letter.
\<close>

theorem caesar_charwise:
  "\<exists>out. caesarCipher t (Integer s) m = Inr out \<and> length out = length t \<and>
     (\<forall>i<length t. out ! i = caesarChar (caesarShift (Integer s) m) (t ! i) \<and>
        (\<not> isAsciiLetter (t ! i) \<longrightarrow> out ! i = t ! i) \<and>
        (isUpperAZ (t ! i) \<longrightarrow> isUpperAZ (out ! i)) \<and>
        (isLowerAZ (t ! i) \<longrightarrow> isLowerAZ (out ! i)))"
proof -
  obtain k where k: "0 \<le> k" "k < 26" "caesarShift (Integer s) m = Integer k"
    using caesarShift_Integer by blast
  let ?out = "map (caesarChar (Integer k)) t"
  have "caesarCipher t (Integer s) m = Inr ?out"
    by (simp add: caesarCipher_def k(3))
  moreover have "length ?out = length t" by simp
  moreover have "\<forall>i<length t. ?out ! i = caesarChar (caesarShift (Integer s) m) (t ! i) \<and>
        (\<not> isAsciiLetter (t ! i) \<longrightarrow> ?out ! i = t ! i) \<and>
        (isUpperAZ (t ! i) \<longrightarrow> isUpperAZ (?out ! i)) \<and>
        (isLowerAZ (t ! i) \<longrightarrow> isLowerAZ (?out ! i))"
  proof (intro allI impI)
    fix i assume "i < length t"
    then have "?out ! i = caesarChar (Integer k) (t ! i)" by simp
    then show "?out ! i = caesarChar (caesarShift (Integer s) m) (t ! i) \<and>
        (\<not> isAsciiLetter (t ! i) \<longrightarrow> ?out ! i = t ! i) \<and>
        (isUpperAZ (t ! i) \<longrightarrow> isUpperAZ (?out ! i)) \<and>
        (isLowerAZ (t ! i) \<longrightarrow> isLowerAZ (?out ! i))"
      using caesarChar_cases [OF k(1,2), of "t ! i"] by (simp only: k(3))
  qed
  ultimately show ?thesis by blast
qed

theorem caesar_charwise_witness:
  "\<exists>out. caesarCipher (str ''a1B'') (Integer 3) Decrypt = Inr out \<and> length out = 3 \<and>
     isLowerAZ (out ! 0) \<and> out ! 1 = 49 \<and> isUpperAZ (out ! 2)"
proof -
  let ?t = "str ''a1B''"
  have t: "length ?t = 3" "isLowerAZ (?t ! 0)" "\<not> isAsciiLetter (?t ! 1)" "?t ! 1 = 49"
     "isUpperAZ (?t ! 2)"
    by (simp_all add: str_def isAsciiLetter_def isUpperAZ_def isLowerAZ_def)
  from caesar_charwise [of ?t 3 Decrypt] obtain out where
    o: "caesarCipher ?t (Integer 3) Decrypt = Inr out" "length out = length ?t"
    and all: "\<And>i. i < length ?t \<Longrightarrow>
        (\<not> isAsciiLetter (?t ! i) \<longrightarrow> out ! i = ?t ! i) \<and>
        (isUpperAZ (?t ! i) \<longrightarrow> isUpperAZ (out ! i)) \<and>
        (isLowerAZ (?t ! i) \<longrightarrow> isLowerAZ (out ! i))"
    by blast
  have "isLowerAZ (out ! 0)" using all [of 0] t by simp
  moreover have "out ! 1 = 49" using all [of 1] t by simp
  moreover have "isUpperAZ (out ! 2)" using all [of 2] t by simp
  ultimately show ?thesis using o t(1) by simp
qed

text \<open>
  What the guard \<open>isNaN(shift)\<close> does: NaN is refused, with the error of the Caesar
  key, and every integer shift, negative or above 26 included, is accepted and
  normalized to a shift \<open>k\<close> with \<open>0 \<le> k < 26\<close> that is applied to every character.
\<close>

lemma caesar_NaN_refused: "caesarCipher text NaN mode = Inl InvalidCaesarKey"
  by (simp add: caesarCipher_def)

lemma caesar_integer_shift_accepted:
  "\<exists>k. 0 \<le> k \<and> k < 26 \<and> caesarShift (Integer n) mode = Integer k \<and>
        caesarCipher text (Integer n) mode = Inr (map (caesarChar (Integer k)) text)"
proof -
  obtain k where "0 \<le> k" "k < 26" "caesarShift (Integer n) mode = Integer k"
    using caesarShift_Integer by blast
  then show ?thesis by (auto simp: caesarCipher_def)
qed

text \<open>
  Claim C5. \<open>caesarCipher\<close> is to fail exactly when the shift is not an integer, as
  the message of its error says (the key must be an integer). The guard of the
  source, \<open>isNaN(shift)\<close>, misses the infinite shift that \<open>parseInt\<close> returns for a
  numeral too long for a double: Infinity is not an integer, \<open>caesarCipher\<close> does not
  fail on it, and it returns the text with every letter turned into the code unit 0.
\<close>

theorem caesar_infinite_shift_accepted:
  "\<not> isInteger PosInfinity \<and> caesarCipher (str ''a'') PosInfinity Encrypt = Inr [0]"
  by (simp add: caesarCipher_def caesarChar_def caesarShift_def str_def isAsciiLetter_def
      isUpperAZ_def isLowerAZ_def)

section \<open>Properties of the Playfair cipher\<close>

lemma alphabet_unfold:
  "alphabet = [65, 66, 67, 68, 69, 70, 71, 72, 73, 75, 76, 77, 78, 79, 80, 81, 82, 83, 84, 85,
     86, 87, 88, 89, 90]"
  by (simp add: alphabet_def str_def)

lemma distinct_alphabet: "distinct alphabet"
  by (simp add: alphabet_unfold)

lemma length_alphabet: "length alphabet = 25"
  by (simp add: alphabet_unfold)

lemma keepAZ_alphabet: "keepAZ alphabet = alphabet"
  by (simp add: alphabet_unfold keepAZ_def isUpperAZ_def)

lemma upper_in_alphabet:
  assumes "isUpperAZ c" "c \<noteq> 74"
  shows "c \<in> set alphabet"
proof -
  have "65 \<le> uint c" "uint c \<le> 90" using assms(1) by (simp_all add: isUpperAZ_def)
  then have "uint c = 65 \<or> uint c = 66 \<or> uint c = 67 \<or> uint c = 68 \<or> uint c = 69 \<or> uint c = 70 \<or> uint c = 71 \<or> uint c = 72 \<or> uint c = 73 \<or> uint c = 74 \<or> uint c = 75 \<or> uint c = 76 \<or> uint c = 77 \<or> uint c = 78 \<or> uint c = 79 \<or> uint c = 80 \<or> uint c = 81 \<or> uint c = 82 \<or> uint c = 83 \<or> uint c = 84 \<or> uint c = 85 \<or> uint c = 86 \<or> uint c = 87 \<or> uint c = 88 \<or> uint c = 89 \<or> uint c = 90"
    by arith
  then show ?thesis using assms(2)
    by (simp add: alphabet_unfold word_uint_eq_iff)
qed

lemma alphabet_upper: "c \<in> set alphabet \<Longrightarrow> isUpperAZ c \<and> c \<noteq> 74"
  by (auto simp: alphabet_unfold isUpperAZ_def)

lemma set_alphabet: "set alphabet = {c. isUpperAZ c \<and> c \<noteq> 74}"
  using upper_in_alphabet alphabet_upper by blast

lemma replaceJ_no_J: "74 \<notin> set (replaceJ s)"
  by (auto simp: replaceJ_def)

lemma set_sanitized_subset: "set (keepAZ (replaceJ s)) \<subseteq> set alphabet"
  using replaceJ_no_J [of s] by (auto simp: keepAZ_def intro!: upper_in_alphabet)

lemma set_sanitizeText: "set (sanitizeText text) \<subseteq> set alphabet"
  unfolding sanitizeText_def by (rule set_sanitized_subset)

lemma keepAZ_append: "keepAZ (a @ b) = keepAZ a @ keepAZ b"
  by (simp add: keepAZ_def)

lemma fold_unique:
  "distinct seen \<Longrightarrow>
   distinct (fold (\<lambda>c seen. if c \<in> set seen then seen else seen @ [c]) xs seen) \<and>
   set (fold (\<lambda>c seen. if c \<in> set seen then seen else seen @ [c]) xs seen) = set seen \<union> set xs"
  by (induction xs arbitrary: seen) auto

lemma fold_unique_distinct:
  "distinct (seen @ xs) \<Longrightarrow>
   fold (\<lambda>c seen. if c \<in> set seen then seen else seen @ [c]) xs seen = seen @ xs"
  by (induction xs arbitrary: seen) auto

lemma distinct_uniqueChars: "distinct (uniqueChars xs)"
  and set_uniqueChars: "set (uniqueChars xs) = set xs"
  using fold_unique [of "[]" xs] by (simp_all add: uniqueChars_def)

lemma uniqueChars_distinct: "distinct xs \<Longrightarrow> uniqueChars xs = xs"
  using fold_unique_distinct [of "[]" xs] by (simp add: uniqueChars_def)

lemma set_key_letters:
  "set (keepAZ (replaceJ s @ alphabet)) = set alphabet"
  using set_sanitized_subset [of s] by (auto simp: keepAZ_append keepAZ_alphabet)

lemma length_unique_letters:
  "length (uniqueChars (keepAZ (replaceJ s @ alphabet))) = 25"
proof -
  let ?u = "uniqueChars (keepAZ (replaceJ s @ alphabet))"
  have "length ?u = card (set ?u)"
    by (simp add: distinct_card distinct_uniqueChars)
  also have "\<dots> = card (set alphabet)"
    by (simp add: set_uniqueChars set_key_letters)
  also have "\<dots> = 25"
    using distinct_card [OF distinct_alphabet] by (simp add: length_alphabet)
  finally show ?thesis .
qed

lemma upt_5: "[0..<5] = [0, 1, 2, 3, 4]"
  by (simp add: upt_rec)

lemma matrixRows_unfold:
  "matrixRows u = [take 5 u, take 5 (drop 5 u), take 5 (drop 10 u), take 5 (drop 15 u),
     take 5 (drop 20 u)]"
  by (simp add: matrixRows_def slice_def upt_5)

lemma take_drop_step: "take n (drop k u) @ drop (n + k) u = drop k u"
  by (simp flip: drop_drop)

lemma concat_matrixRows:
  assumes "length u = 25"
  shows "concat (matrixRows u) = u"
proof -
  have a: "take 5 (drop 20 u) = drop 20 u" using assms by simp
  have b: "take 5 (drop 15 u) @ drop 20 u = drop 15 u" using take_drop_step [of 5 15 u] by simp
  have c: "take 5 (drop 10 u) @ drop 15 u = drop 10 u" using take_drop_step [of 5 10 u] by simp
  have d: "take 5 (drop 5 u) @ drop 10 u = drop 5 u" using take_drop_step [of 5 5 u] by simp
  show ?thesis by (simp add: matrixRows_unfold a b c d)
qed

lemma length_matrixRows: "length (matrixRows u) = 5"
  by (simp add: matrixRows_unfold)

lemma map_length_matrixRows:
  "length u = 25 \<Longrightarrow> map length (matrixRows u) = [5, 5, 5, 5, 5]"
  by (simp add: matrixRows_unfold)

lemma matrixRows_nth:
  assumes "length u = 25" "r < 5" "c < 5"
  shows "matrixRows u ! r ! c = u ! (5 * r + c)" "length (matrixRows u ! r) = 5"
proof -
  have "r = 0 \<or> r = 1 \<or> r = 2 \<or> r = 3 \<or> r = 4" using assms(2) by arith
  then show "matrixRows u ! r ! c = u ! (5 * r + c)" "length (matrixRows u ! r) = 5"
    using assms(1,3) by (auto simp: matrixRows_unfold)
qed

lemma cellAt_matrixRows:
  assumes "length u = 25" "r < 5" "c < 5"
  shows "cellAt (matrixRows u) r c = Some (u ! (5 * r + c))"
  using matrixRows_nth [OF assms] assms(3) by (simp add: cellAt_def)

lemma find_unique:
  assumes "x \<in> set xs" "P x" "\<And>y. y \<in> set xs \<Longrightarrow> P y \<Longrightarrow> y = x"
  shows "find P xs = Some x"
  using assms
proof (induction xs)
  case Nil
  then show ?case by simp
next
  case (Cons z zs)
  show ?case
  proof (cases "P z")
    case True
    then have "z = x" using Cons.prems(3) [of z] by simp
    with True show ?thesis by simp
  next
    case False
    with Cons.prems(1,2) have "x \<in> set zs" by auto
    moreover have "\<And>y. y \<in> set zs \<Longrightarrow> P y \<Longrightarrow> y = x" using Cons.prems(3) by simp
    ultimately have "find P zs = Some x" using Cons.IH Cons.prems(2) by blast
    with False show ?thesis by simp
  qed
qed

lemma findPos_matrixRows:
  assumes u: "length u = 25" "distinct u" and rc: "r < 5" "c < 5"
  shows "findPos (matrixRows u) (Some (u ! (5 * r + c))) = Inr (r, c)"
proof -
  let ?P = "\<lambda>(r', c'). cellAt (matrixRows u) r' c' = Some (u ! (5 * r + c))"
  have "find ?P (List.product [0..<5] [0..<5]) = Some (r, c)"
  proof (rule find_unique)
    show "(r, c) \<in> set (List.product [0..<5] [0..<5])" using rc by simp
    show "?P (r, c)" using cellAt_matrixRows [OF u(1) rc] by simp
  next
    fix y assume y: "y \<in> set (List.product [0..<5] [0..<5])" "?P y"
    obtain r' c' where y': "y = (r', c')" by (cases y)
    with y(1) have rc': "r' < 5" "c' < 5" by simp_all
    from y(2) y' cellAt_matrixRows [OF u(1) rc'] have "u ! (5 * r' + c') = u ! (5 * r + c)"
      by simp
    moreover have "5 * r' + c' < length u" "5 * r + c < length u" using rc rc' u(1) by simp_all
    ultimately have "5 * r' + c' = 5 * r + c"
      using u(2) by (simp add: nth_eq_iff_index_eq)
    moreover have "(5 * r' + c') div 5 = r'" "(5 * r + c) div 5 = r" using rc rc' by simp_all
    ultimately have "r' = r" by simp
    with \<open>5 * r' + c' = 5 * r + c\<close> have "r' = r \<and> c' = c" by simp
    with y' show "y = (r, c)" by simp
  qed
  then show ?thesis by (simp add: findPos_def)
qed

lemma in_grid:
  assumes "length u = 25" "a \<in> set u"
  shows "\<exists>r c. r < 5 \<and> c < 5 \<and> a = u ! (5 * r + c)"
proof -
  from assms obtain i where i: "i < 25" "u ! i = a" by (auto simp: in_set_conv_nth)
  then have "i div 5 < 5" "i mod 5 < 5" "a = u ! (5 * (i div 5) + i mod 5)" by simp_all
  then show ?thesis by blast
qed

lemma grid_in:
  assumes "length u = 25" "r < 5" "c < 5"
  shows "u ! (5 * r + c) \<in> set u"
  using assms by simp

lemma substitutePair_grid:
  assumes u: "length u = 25" "distinct u"
    and rc: "ra < 5" "ca < 5" "rb < 5" "cb < 5"
  shows "substitutePair (matrixRows u) mode (Some (u ! (5 * ra + ca)), Some (u ! (5 * rb + cb))) =
    Inr (let shift = (if mode = Encrypt then 1 else 4)
         in if ra = rb
            then [u ! (5 * ra + (ca + shift) mod 5), u ! (5 * rb + (cb + shift) mod 5)]
            else if ca = cb
            then [u ! (5 * ((ra + shift) mod 5) + ca), u ! (5 * ((rb + shift) mod 5) + cb)]
            else [u ! (5 * ra + cb), u ! (5 * rb + ca)])"
proof -
  have m: "(x + k) mod 5 < 5" for x k :: nat by simp
  show ?thesis
    by (simp add: substitutePair_def findPos_matrixRows [OF u] rc
        cellAt_matrixRows [OF u(1)] m Let_def)
qed

lemma substitutePair_inverse:
  assumes u: "length u = 25" "distinct u" and ab: "a \<in> set u" "b \<in> set u"
  shows "\<exists>a' b'. a' \<in> set u \<and> b' \<in> set u \<and>
    substitutePair (matrixRows u) Encrypt (Some a, Some b) = Inr [a', b'] \<and>
    substitutePair (matrixRows u) Decrypt (Some a', Some b') = Inr [a, b]"
proof -
  from in_grid [OF u(1) ab(1)] obtain r1 c1 where
    a: "r1 < 5" "c1 < 5" "a = u ! (5 * r1 + c1)" by blast
  from in_grid [OF u(1) ab(2)] obtain r2 c2 where
    b: "r2 < 5" "c2 < 5" "b = u ! (5 * r2 + c2)" by blast
  have m: "(x + k) mod 5 < 5" for x k :: nat by simp
  have unshift: "((x + 1) mod 5 + 4) mod 5 = x" if "x < 5" for x :: nat
  proof -
    have "((x + 1) mod 5 + 4) mod 5 = (x + 5) mod 5" by (simp add: mod_add_left_eq)
    with that show ?thesis by simp
  qed
  have diff: "(x + 1) mod 5 \<noteq> (y + 1) mod 5" if "x < 5" "y < 5" "x \<noteq> y" for x y :: nat
  proof
    assume "(x + 1) mod 5 = (y + 1) mod 5"
    then have "((x + 1) mod 5 + 4) mod 5 = ((y + 1) mod 5 + 4) mod 5" by simp
    with that unshift [of x] unshift [of y] show False by simp
  qed
  consider (row) "r1 = r2" | (col) "r1 \<noteq> r2" "c1 = c2" | (rect) "r1 \<noteq> r2" "c1 \<noteq> c2"
    by blast
  then show ?thesis
  proof cases
    case row
    let ?a = "u ! (5 * r1 + (c1 + 1) mod 5)" and ?b = "u ! (5 * r2 + (c2 + 1) mod 5)"
    have "substitutePair (matrixRows u) Encrypt (Some a, Some b) = Inr [?a, ?b]"
      using substitutePair_grid [OF u a(1,2) b(1,2), of Encrypt] row by (simp add: a b)
    moreover have "substitutePair (matrixRows u) Decrypt (Some ?a, Some ?b) = Inr [a, b]"
      using substitutePair_grid [where ra = r1 and ca = "(c1 + 1) mod 5" and rb = r2
            and cb = "(c2 + 1) mod 5" and mode = Decrypt, OF u] row a b
        unshift [of c1] unshift [of c2]
      by simp
    moreover have "?a \<in> set u" "?b \<in> set u" using u(1) a b by simp_all
    ultimately show ?thesis by blast
  next
    case col
    let ?a = "u ! (5 * ((r1 + 1) mod 5) + c1)" and ?b = "u ! (5 * ((r2 + 1) mod 5) + c2)"
    have "substitutePair (matrixRows u) Encrypt (Some a, Some b) = Inr [?a, ?b]"
      using substitutePair_grid [OF u a(1,2) b(1,2), of Encrypt] col by (simp add: a b)
    moreover have "substitutePair (matrixRows u) Decrypt (Some ?a, Some ?b) = Inr [a, b]"
      using substitutePair_grid [where ra = "(r1 + 1) mod 5" and ca = c1
            and rb = "(r2 + 1) mod 5" and cb = c2 and mode = Decrypt, OF u] col a b
        diff [of r1 r2] unshift [of r1] unshift [of r2]
      by simp
    moreover have "?a \<in> set u" "?b \<in> set u" using u(1) a b by simp_all
    ultimately show ?thesis by blast
  next
    case rect
    let ?a = "u ! (5 * r1 + c2)" and ?b = "u ! (5 * r2 + c1)"
    have "substitutePair (matrixRows u) Encrypt (Some a, Some b) = Inr [?a, ?b]"
      using substitutePair_grid [OF u a(1,2) b(1,2), of Encrypt] rect by (simp add: a b)
    moreover have "substitutePair (matrixRows u) Decrypt (Some ?a, Some ?b) = Inr [a, b]"
      using substitutePair_grid [OF u a(1) b(2) b(1) a(2), of Decrypt] rect a b
      by simp
    moreover have "?a \<in> set u" "?b \<in> set u" using u(1) a b by simp_all
    ultimately show ?thesis by blast
  qed
qed

lemma substitutePair_ok:
  assumes u: "length u = 25" "distinct u" and ab: "a \<in> set u" "b \<in> set u"
  shows "\<exists>a' b'. a' \<in> set u \<and> b' \<in> set u \<and>
    substitutePair (matrixRows u) mode (Some a, Some b) = Inr [a', b']"
proof -
  from in_grid [OF u(1) ab(1)] obtain r1 c1 where
    a: "r1 < 5" "c1 < 5" "a = u ! (5 * r1 + c1)" by blast
  from in_grid [OF u(1) ab(2)] obtain r2 c2 where
    b: "r2 < 5" "c2 < 5" "b = u ! (5 * r2 + c2)" by blast
  have m: "5 * r + (x + k) mod 5 < 25" "5 * ((r + k) mod 5) + c < 25" "5 * r + c < 25"
    if "r < 5" "c < 5" for x k r c :: nat
  proof -
    have "(x + k) mod 5 < 5" "(r + k) mod 5 < 5" by simp_all
    with that show "5 * r + (x + k) mod 5 < 25" "5 * ((r + k) mod 5) + c < 25" "5 * r + c < 25"
      by linarith+
  qed
  show ?thesis
    unfolding a(3) b(3) substitutePair_grid [OF u a(1,2) b(1,2)] Let_def
    using m [OF a(1,2)] m [OF b(1,2)] m [OF a(1) b(2)] m [OF b(1) a(2)] u(1)
    by (simp split: if_splits)
qed

lemma substituteAll_acc:
  "substituteAll m mode ps acc =
     (case substituteAll m mode ps [] of Inl e \<Rightarrow> Inl e | Inr s \<Rightarrow> Inr (acc @ s))"
proof (induction ps arbitrary: acc)
  case Nil
  then show ?case by simp
next
  case (Cons p ps)
  show ?case
  proof (cases "substitutePair m mode p")
    case (Inl e)
    then show ?thesis by simp
  next
    case (Inr s)
    then show ?thesis
      using Cons.IH [of "acc @ s"] Cons.IH [of s]
      by (simp split: sum.splits)
  qed
qed

lemma substituteAll_ok:
  assumes u: "length u = 25" "distinct u"
  shows "set t \<subseteq> set u \<Longrightarrow> even (length t) \<Longrightarrow>
    \<exists>c. substituteAll (matrixRows u) mode (digraphs t) [] = Inr c \<and> length c = length t \<and>
      set c \<subseteq> set u"
proof (induction t rule: digraphs.induct)
  case 1
  then show ?case by simp
next
  case (2 a)
  then show ?case by simp
next
  case (3 a b rest)
  then have "a \<in> set u" "b \<in> set u" "set rest \<subseteq> set u" "even (length rest)" by simp_all
  from substitutePair_ok [OF u this(1,2), of mode] obtain a' b' where
    p: "a' \<in> set u" "b' \<in> set u"
       "substitutePair (matrixRows u) mode (Some a, Some b) = Inr [a', b']" by blast
  from 3 \<open>set rest \<subseteq> set u\<close> \<open>even (length rest)\<close> obtain c where
    c: "substituteAll (matrixRows u) mode (digraphs rest) [] = Inr c" "length c = length rest"
       "set c \<subseteq> set u" by blast
  have "substituteAll (matrixRows u) mode (digraphs (a # b # rest)) [] = Inr ([a', b'] @ c)"
    using p(3) c(1) substituteAll_acc [of "matrixRows u" mode "digraphs rest" "[a', b']"]
    by simp
  with p c show ?case by simp
qed

lemma substituteAll_roundtrip:
  assumes u: "length u = 25" "distinct u"
  shows "set t \<subseteq> set u \<Longrightarrow> even (length t) \<Longrightarrow>
    \<exists>c. substituteAll (matrixRows u) Encrypt (digraphs t) [] = Inr c \<and> length c = length t \<and>
      set c \<subseteq> set u \<and> substituteAll (matrixRows u) Decrypt (digraphs c) [] = Inr t"
proof (induction t rule: digraphs.induct)
  case 1
  then show ?case by simp
next
  case (2 a)
  then show ?case by simp
next
  case (3 a b rest)
  then have "a \<in> set u" "b \<in> set u" "set rest \<subseteq> set u" "even (length rest)" by simp_all
  from substitutePair_inverse [OF u this(1,2)] obtain a' b' where
    p: "a' \<in> set u" "b' \<in> set u"
       "substitutePair (matrixRows u) Encrypt (Some a, Some b) = Inr [a', b']"
       "substitutePair (matrixRows u) Decrypt (Some a', Some b') = Inr [a, b]" by blast
  from 3 \<open>set rest \<subseteq> set u\<close> \<open>even (length rest)\<close> obtain c where
    c: "substituteAll (matrixRows u) Encrypt (digraphs rest) [] = Inr c" "length c = length rest"
       "set c \<subseteq> set u" "substituteAll (matrixRows u) Decrypt (digraphs c) [] = Inr rest"
    by blast
  have "substituteAll (matrixRows u) Encrypt (digraphs (a # b # rest)) [] = Inr ([a', b'] @ c)"
    using p(3) c(1) substituteAll_acc [of "matrixRows u" Encrypt "digraphs rest" "[a', b']"]
    by simp
  moreover have "substituteAll (matrixRows u) Decrypt (digraphs ([a', b'] @ c)) [] =
      Inr (a # b # rest)"
    using p(4) c(4) substituteAll_acc [of "matrixRows u" Decrypt "digraphs c" "[a, b]"]
    by simp
  ultimately show ?case using p c by simp
qed

lemma upperCaseUnit_upper:
  assumes "isUpperAZ c"
  shows "upperCaseUnit c = [c]"
proof -
  from assms have le: "uint c \<le> 90" by (simp add: isUpperAZ_def)
  have ne: "(c = k) = False" if "90 < uint k" for k using that le by auto
  have "\<not> isLowerAZ c" using le by (simp add: isLowerAZ_def)
  then show ?thesis by (simp add: upperCaseUnit_def ne)
qed

lemma upperCaseUnit_alphabet: "c \<in> set alphabet \<Longrightarrow> upperCaseUnit c = [c]"
  using alphabet_upper upperCaseUnit_upper by blast

lemma sanitizeText_alphabet:
  assumes "set s \<subseteq> set alphabet"
  shows "sanitizeText s = s"
proof -
  have "toUpperCase s = s"
    using assms by (induction s) (simp_all add: toUpperCase_def upperCaseUnit_alphabet)
  moreover have "replaceJ s = s"
    using assms alphabet_upper by (auto simp: replaceJ_def intro!: map_idI)
  moreover have "keepAZ s = s"
    using assms alphabet_upper by (auto simp: keepAZ_def filter_id_conv)
  ultimately show ?thesis by (simp add: sanitizeText_def)
qed

lemma insertFillers_props:
  "set (insertFillers res acc) \<subseteq> set res \<union> set acc \<union> {88} \<and>
   length acc + length res \<le> length (insertFillers res acc)"
proof (induction res arbitrary: acc)
  case Nil
  then show ?case by auto
next
  case (Cons c rest)
  show ?case
    using Cons.IH [of "acc @ [c] @ [88]"] Cons.IH [of "acc @ [c]"]
    by (auto simp: Let_def str_def)
qed

lemma X_in_alphabet: "88 \<in> set alphabet"
  by (simp add: alphabet_unfold)

lemma preparePlayfairText_props:
  assumes "preparePlayfairText text = Inr p"
  shows "p \<noteq> []" "even (length p)" "set p \<subseteq> set alphabet"
proof -
  let ?res = "sanitizeText text" and ?q = "insertFillers (sanitizeText text) []"
  from assms have res: "?res \<noteq> []"
    and p: "p = (if length ?q mod 2 \<noteq> 0 then ?q @ str ''X'' else ?q)"
    by (auto simp: preparePlayfairText_def Let_def split: if_splits)
  have q: "set ?q \<subseteq> set ?res \<union> {88}" "length ?res \<le> length ?q"
    using insertFillers_props [of ?res "[]"] by simp_all
  from q(2) res have "?q \<noteq> []" by auto
  with p show "p \<noteq> []" by simp
  from p show "even (length p)" by (simp add: str_def) presburger
  from p q(1) set_sanitizeText [of "text"] X_in_alphabet show "set p \<subseteq> set alphabet"
    by (auto simp: str_def split: if_splits)
qed

lemma preparePlayfairText_empty:
  "sanitizeText text = [] \<Longrightarrow> preparePlayfairText text = Inl NoLetterToEncrypt"
  by (simp add: preparePlayfairText_def)

lemma preparePlayfairText_nonempty:
  "sanitizeText text \<noteq> [] \<Longrightarrow> \<exists>p. preparePlayfairText text = Inr p"
  by (simp add: preparePlayfairText_def Let_def)

lemma createPlayfairMatrix_rows:
  "createPlayfairMatrix key =
     Inr (matrixRows (uniqueChars (keepAZ (replaceJ (toUpperCase key) @ alphabet))))"
proof -
  have "alphabet \<noteq> []" by (simp add: alphabet_unfold)
  then have "keepAZ (replaceJ (toUpperCase key) @ alphabet) \<noteq> []"
    by (simp add: keepAZ_append keepAZ_alphabet)
  then show ?thesis by (simp add: createPlayfairMatrix_def Let_def)
qed

lemma key_letters:
  "length (uniqueChars (keepAZ (replaceJ (toUpperCase key) @ alphabet))) = 25"
  "distinct (uniqueChars (keepAZ (replaceJ (toUpperCase key) @ alphabet)))"
  "set (uniqueChars (keepAZ (replaceJ (toUpperCase key) @ alphabet))) = set alphabet"
  by (simp_all add: length_unique_letters distinct_uniqueChars set_uniqueChars set_key_letters)

text \<open>
  Claim C6. For every key, also the empty one and one with no letter at all,
  \<open>createPlayfairMatrix\<close> succeeds, and its result has five rows of five cells that
  hold each of the 25 letters of \<open>ABCDEFGHIKLMNOPQRSTUVWXYZ\<close> exactly once (no \<open>J\<close>).
  For a key in which sanitizing finds no letter, the result is the alphabet row by
  row.
\<close>

theorem createPlayfairMatrix_grid:
  "\<exists>m. createPlayfairMatrix key = Inr m \<and> map length m = [5, 5, 5, 5, 5] \<and>
     distinct (concat m) \<and> set (concat m) = set alphabet \<and>
     (sanitizeText key = [] \<longrightarrow>
        m = map str [''ABCDE'', ''FGHIK'', ''LMNOP'', ''QRSTU'', ''VWXYZ''])"
proof -
  let ?u = "uniqueChars (keepAZ (replaceJ (toUpperCase key) @ alphabet))"
  note u = key_letters [of key]
  have c: "concat (matrixRows ?u) = ?u" using u(1) by (rule concat_matrixRows)
  have plain: "matrixRows ?u = map str [''ABCDE'', ''FGHIK'', ''LMNOP'', ''QRSTU'', ''VWXYZ'']"
    if "sanitizeText key = []"
  proof -
    from that have "keepAZ (replaceJ (toUpperCase key) @ alphabet) = alphabet"
      by (simp add: sanitizeText_def keepAZ_append keepAZ_alphabet)
    then have "?u = alphabet" by (simp add: uniqueChars_distinct distinct_alphabet)
    then show ?thesis by (simp add: matrixRows_unfold alphabet_unfold str_def)
  qed
  show ?thesis
  proof (intro exI conjI impI)
    show "createPlayfairMatrix key = Inr (matrixRows ?u)" by (rule createPlayfairMatrix_rows)
    show "map length (matrixRows ?u) = [5, 5, 5, 5, 5]" using u(1) by (rule map_length_matrixRows)
    show "distinct (concat (matrixRows ?u))" unfolding c by (rule u(2))
    show "set (concat (matrixRows ?u)) = set alphabet" unfolding c by (rule u(3))
    show "matrixRows ?u = map str [''ABCDE'', ''FGHIK'', ''LMNOP'', ''QRSTU'', ''VWXYZ'']"
      if "sanitizeText key = []" using that by (rule plain)
  qed
qed

theorem createPlayfairMatrix_grid_witness:
  "sanitizeText (str ''!!!'') = [] \<and>
   createPlayfairMatrix (str ''!!!'') =
     Inr (map str [''ABCDE'', ''FGHIK'', ''LMNOP'', ''QRSTU'', ''VWXYZ''])"
proof -
  have h: "sanitizeText (str ''!!!'') = []"
    by (simp add: sanitizeText_def keepAZ_def replaceJ_def toUpperCase_def upperCaseUnit_def
        str_def isUpperAZ_def isLowerAZ_def)
  with createPlayfairMatrix_grid [of "str ''!!!''"] show ?thesis by auto
qed

text \<open>
  Claim C3. Encrypting \<open>HIDETHEGOLDINTHETREESTUMP\<close> with the key \<open>PLAYFAIREXAMPLE\<close>
  returns the classical reference ciphertext \<open>BMODZBXDNABEKUDMUIXMMOUVIF\<close>.
\<close>

theorem playfair_reference_ciphertext:
  "playfairCipher (str ''HIDETHEGOLDINTHETREESTUMP'') (str ''PLAYFAIREXAMPLE'') Encrypt =
     Inr (str ''BMODZBXDNABEKUDMUIXMMOUVIF'')"
  by code_simp

lemma playfairCipher_Encrypt:
  assumes "preparePlayfairText text = Inr p"
  shows "playfairCipher text key Encrypt =
    substituteAll (matrixRows (uniqueChars (keepAZ (replaceJ (toUpperCase key) @ alphabet))))
      Encrypt (digraphs p) []"
  using assms by (simp add: playfairCipher_def createPlayfairMatrix_rows)

lemma playfairCipher_Decrypt:
  assumes "sanitizeText text \<noteq> []" "even (length (sanitizeText text))"
  shows "playfairCipher text key Decrypt =
    substituteAll (matrixRows (uniqueChars (keepAZ (replaceJ (toUpperCase key) @ alphabet))))
      Decrypt (digraphs (sanitizeText text)) []"
  using assms by (simp add: playfairCipher_def createPlayfairMatrix_rows)

text \<open>
  Claim C10. For every key, \<open>playfairCipher\<close> fails, and does not return the empty
  string, when sanitizing leaves no letter of the text: in encryption with the
  error of \<open>preparePlayfairText\<close>, in decryption with the error of its own check.
\<close>

theorem playfair_no_letter_fails:
  assumes "sanitizeText text = []"
  shows "playfairCipher text key Encrypt = Inl NoLetterToEncrypt \<and>
         playfairCipher text key Decrypt = Inl NoLetterToDecrypt"
  using assms
  by (simp add: playfairCipher_def createPlayfairMatrix_rows preparePlayfairText_empty)

theorem playfair_no_letter_fails_witness:
  "sanitizeText (str ''12 + 34 = ?'') = [] \<and>
   playfairCipher (str ''12 + 34 = ?'') (str ''KEY'') Encrypt = Inl NoLetterToEncrypt \<and>
   playfairCipher (str ''12 + 34 = ?'') (str ''KEY'') Decrypt = Inl NoLetterToDecrypt"
proof -
  have h: "sanitizeText (str ''12 + 34 = ?'') = []"
    by (simp add: sanitizeText_def keepAZ_def replaceJ_def toUpperCase_def upperCaseUnit_def
        str_def isUpperAZ_def isLowerAZ_def)
  with playfair_no_letter_fails [OF h, of "str ''KEY''"] show ?thesis by simp
qed

lemma playfair_lookup:
  assumes "sanitizeText text \<noteq> []"
    and "mode = Decrypt \<longrightarrow> even (length (sanitizeText text))"
  shows "\<exists>matrix prepared out.
    createPlayfairMatrix key = Inr matrix \<and>
    (if mode = Encrypt then preparePlayfairText text else Inr (sanitizeText text)) = Inr prepared \<and>
    (\<forall>c\<in>set prepared. \<exists>pos. findPos matrix (Some c) = Inr pos) \<and>
    playfairCipher text key mode = Inr out"
proof -
  let ?u = "uniqueChars (keepAZ (replaceJ (toUpperCase key) @ alphabet))"
  note u = key_letters [of key]
  have found: "\<exists>pos. findPos (matrixRows ?u) (Some c) = Inr pos" if "c \<in> set alphabet" for c
  proof -
    from that u(3) have "c \<in> set ?u" by simp
    from in_grid [OF u(1) this] obtain r k where "r < 5" "k < 5" "c = ?u ! (5 * r + k)" by blast
    with findPos_matrixRows [OF u(1,2), of r k] show ?thesis by auto
  qed
  obtain prepared where p:
    "(if mode = Encrypt then preparePlayfairText text else Inr (sanitizeText text)) = Inr prepared"
    using preparePlayfairText_nonempty [OF assms(1)] by (cases mode) auto
  have props: "prepared \<noteq> []" "even (length prepared)" "set prepared \<subseteq> set alphabet"
    using p assms preparePlayfairText_props [of "text" prepared] set_sanitizeText [of "text"]
    by (cases mode; simp)+
  from substituteAll_ok [OF u(1,2), of prepared mode] props u(3) obtain out where
    "substituteAll (matrixRows ?u) mode (digraphs prepared) [] = Inr out" by auto
  then have "playfairCipher text key mode = Inr out"
    using p props by (cases mode) (auto simp: playfairCipher_def createPlayfairMatrix_rows)
  moreover have "\<forall>c\<in>set prepared. \<exists>pos. findPos (matrixRows ?u) (Some c) = Inr pos"
    using found props(3) by blast
  ultimately show ?thesis using p createPlayfairMatrix_rows [of key] by blast
qed

text \<open>
  Claim C9. For every key and every text that meets the preconditions of
  \<open>playfairCipher\<close> (sanitizing leaves a letter, and an even number of letters when
  decrypting), every character of the prepared text is found in the matrix, and
  \<open>playfairCipher\<close> returns a text: the error of \<open>findPos\<close> is not reached.
\<close>

theorem playfair_character_found:
  assumes "sanitizeText text \<noteq> []"
    and "mode = Decrypt \<longrightarrow> even (length (sanitizeText text))"
  shows "\<exists>matrix prepared out.
    createPlayfairMatrix key = Inr matrix \<and>
    (if mode = Encrypt then preparePlayfairText text else Inr (sanitizeText text)) = Inr prepared \<and>
    (\<forall>c\<in>set prepared. \<exists>pos. findPos matrix (Some c) = Inr pos) \<and>
    playfairCipher text key mode = Inr out"
  using assms by (rule playfair_lookup)

theorem playfair_character_found_witness:
  "sanitizeText (str ''Jazz!'') \<noteq> [] \<and> even (length (sanitizeText (str ''Jazz!''))) \<and>
   (\<exists>out. playfairCipher (str ''Jazz!'') (str ''KEY'') Decrypt = Inr out)"
proof -
  have s: "sanitizeText (str ''Jazz!'') = str ''IAZZ''"
    by (simp add: sanitizeText_def keepAZ_def replaceJ_def toUpperCase_def upperCaseUnit_def
        str_def isUpperAZ_def isLowerAZ_def)
  then have h: "sanitizeText (str ''Jazz!'') \<noteq> []"
    "Decrypt = Decrypt \<longrightarrow> even (length (sanitizeText (str ''Jazz!'')))"
    by (simp_all add: str_def)
  from playfair_character_found [OF h, of "str ''KEY''"] h show ?thesis by auto
qed

lemma playfair_never_CharacterNotFound:
  "playfairCipher text key mode \<noteq> Inl (CharacterNotFound ch)"
proof (cases "sanitizeText text \<noteq> [] \<and> (mode = Decrypt \<longrightarrow> even (length (sanitizeText text)))")
  case True
  then obtain out where "playfairCipher text key mode = Inr out"
    using playfair_lookup [of "text" mode key] by blast
  then show ?thesis by simp
next
  case False
  then show ?thesis
    by (cases mode)
      (auto simp: playfairCipher_def createPlayfairMatrix_rows preparePlayfairText_empty)
qed

text \<open>
  The texts that \<open>preparePlayfairText\<close> returns unchanged: the non-empty texts of
  even length, of the letters of the alphabet (no \<open>J\<close>), in which no digraph has two
  equal letters.
\<close>

lemma insertFillers_unchanged:
  "even (length acc) \<Longrightarrow> even (length t) \<Longrightarrow>
   (\<forall>i. 2 * i + 1 < length t \<longrightarrow> t ! (2 * i) \<noteq> t ! (2 * i + 1)) \<Longrightarrow>
   insertFillers t acc = acc @ t"
proof (induction t arbitrary: acc rule: digraphs.induct)
  case 1
  then show ?case by simp
next
  case (2 a)
  then show ?case by simp
next
  case (3 a b rest)
  from "3.prems"(3) [rule_format, of 0] have ab: "a \<noteq> b" by simp
  have rest: "\<forall>i. 2 * i + 1 < length rest \<longrightarrow> rest ! (2 * i) \<noteq> rest ! (2 * i + 1)"
  proof (intro allI impI)
    fix i assume "2 * i + 1 < length rest"
    with "3.prems"(3) [rule_format, of "Suc i"] show "rest ! (2 * i) \<noteq> rest ! (2 * i + 1)"
      by simp
  qed
  have "insertFillers rest (acc @ [a, b]) = (acc @ [a, b]) @ rest"
    using "3.prems"(1,2) rest by (intro "3.IH") simp_all
  then show ?case using ab "3.prems"(1) by (simp add: Let_def)
qed

lemma prepared_unchanged:
  assumes "t \<noteq> []" "set t \<subseteq> set alphabet" "even (length t)"
    and "\<forall>i. 2 * i + 1 < length t \<longrightarrow> t ! (2 * i) \<noteq> t ! (2 * i + 1)"
  shows "preparePlayfairText t = Inr t"
  using assms insertFillers_unchanged [of "[]" t]
  by (simp add: preparePlayfairText_def sanitizeText_alphabet Let_def)

text \<open>
  Claim C2 says that decryption undoes encryption on every encrypt-prepared text.
  \<open>XX\<close> is what \<open>preparePlayfairText\<close> makes of \<open>X\<close>; encrypting it prepares it
  again, to \<open>XXXX\<close>, and the round trip returns \<open>XXXX\<close>.
\<close>

theorem playfair_prepared_twice_counterexample:
  "preparePlayfairText (str ''X'') = Inr (str ''XX'') \<and>
   playfairCipher (str ''XX'') (str ''KEY'') Encrypt = Inr (str ''ZZZZ'') \<and>
   playfairCipher (str ''ZZZZ'') (str ''KEY'') Decrypt = Inr (str ''XXXX'')"
  by code_simp

text \<open>
  Claim C2, amended. For every key and every text \<open>t\<close> that \<open>preparePlayfairText\<close>
  returns unchanged (by \<open>prepared_unchanged\<close>: every non-empty text of even length,
  of the letters \<open>A\<close> to \<open>Z\<close> without \<open>J\<close>, in which no digraph has two equal letters),
  decrypting what \<open>playfairCipher\<close> encrypted returns \<open>t\<close>.
\<close>

theorem playfair_roundtrip:
  assumes "preparePlayfairText t = Inr t"
  shows "\<exists>c. playfairCipher t k Encrypt = Inr c \<and> playfairCipher c k Decrypt = Inr t"
proof -
  let ?u = "uniqueChars (keepAZ (replaceJ (toUpperCase k) @ alphabet))"
  note u = key_letters [of k]
  note t = preparePlayfairText_props [OF assms]
  from substituteAll_roundtrip [OF u(1,2), of t] t u(3) obtain c where
    c: "substituteAll (matrixRows ?u) Encrypt (digraphs t) [] = Inr c" "length c = length t"
       "set c \<subseteq> set ?u" "substituteAll (matrixRows ?u) Decrypt (digraphs c) [] = Inr t"
    by auto
  have "playfairCipher t k Encrypt = Inr c"
    using playfairCipher_Encrypt [OF assms, of k] c(1) by simp
  moreover have "sanitizeText c = c" using c(3) u(3) by (simp add: sanitizeText_alphabet)
  moreover have "c \<noteq> []" "even (length c)" using c(2) t(1,2) by auto
  ultimately have "playfairCipher t k Encrypt = Inr c" "playfairCipher c k Decrypt = Inr t"
    using playfairCipher_Decrypt [of c k] c(4) by simp_all
  then show ?thesis by blast
qed

theorem playfair_roundtrip_witness:
  "preparePlayfairText (str ''HIDETHEGOLDINTHETREXESTUMP'') = Inr (str ''HIDETHEGOLDINTHETREXESTUMP'') \<and>
   (\<exists>c. playfairCipher (str ''HIDETHEGOLDINTHETREXESTUMP'') (str ''PLAYFAIREXAMPLE'') Encrypt = Inr c \<and>
        playfairCipher c (str ''PLAYFAIREXAMPLE'') Decrypt = Inr (str ''HIDETHEGOLDINTHETREXESTUMP''))"
proof -
  have h: "preparePlayfairText (str ''HIDETHEGOLDINTHETREXESTUMP'') =
      Inr (str ''HIDETHEGOLDINTHETREXESTUMP'')"
    by code_simp
  from playfair_roundtrip [OF h, of "str ''PLAYFAIREXAMPLE''"] h show ?thesis by simp
qed

section \<open>Properties of the columnar transposition cipher\<close>

lemma cells_nth:
  "r < R \<Longrightarrow> c < n \<Longrightarrow> cells t n R P ! r ! c = (if P r c then [t ! (r * n + c)] else [])"
  by (simp add: cells_def)

lemma cells_length: "length (cells t n R P) = R"
  and cells_row_length: "r < R \<Longrightarrow> length (cells t n R P ! r) = n"
  by (simp_all add: cells_def)

lemma cells_eqI:
  assumes "length g = R" "\<And>r. r < R \<Longrightarrow> length (g ! r) = n"
    "\<And>r c. r < R \<Longrightarrow> c < n \<Longrightarrow> g ! r ! c = (if P r c then [t ! (r * n + c)] else [])"
  shows "g = cells t n R P"
proof (rule nth_equalityI)
  show "length g = length (cells t n R P)" using assms(1) by (simp add: cells_length)
next
  fix r assume "r < length g"
  with assms(1) have r: "r < R" by simp
  show "g ! r = cells t n R P ! r"
  proof (rule nth_equalityI)
    show "length (g ! r) = length (cells t n R P ! r)"
      using assms(2) [OF r] r by (simp add: cells_row_length)
  next
    fix c assume "c < length (g ! r)"
    with assms(2) [OF r] have "c < n" by simp
    with r assms(3) show "g ! r ! c = cells t n R P ! r ! c" by (simp add: cells_nth)
  qed
qed

lemma cells_empty: "replicate R (replicate n []) = cells t n R (\<lambda>r c. False)"
  by (rule cells_eqI) simp_all

lemma ceilDiv_qm:
  assumes "0 < n" "m < n"
  shows "ceilDiv (q * n + m) n = q + (if m = 0 then 0 else 1)"
proof (cases "m = 0")
  case True
  have "q * n + n - 1 = (n - 1) + q * n" using assms by simp
  then have "(q * n + n - 1) div n = q + (n - 1) div n"
    using assms by (simp only: div_mult_self1)
  with True assms show ?thesis by (simp add: ceilDiv_def)
next
  case False
  have "q * n + m + n - 1 = (m - 1) + (q + 1) * n" using assms False by (simp add: algebra_simps)
  then have "(q * n + m + n - 1) div n = (q + 1) + (m - 1) div n"
    using assms by (simp only: div_mult_self1)
  moreover have "(m - 1) div n = 0" using assms by simp
  ultimately show ?thesis using False by (simp add: ceilDiv_def)
qed

lemma ceilDiv_eq:
  assumes "0 < n"
  shows "ceilDiv len n = len div n + (if len mod n = 0 then 0 else 1)"
  using ceilDiv_qm [OF assms, of "len mod n" "len div n"] assms by simp

lemma index_split_qm:
  fixes r q n c m :: nat
  assumes "c < n" "m < n"
  shows "r * n + c < q * n + m \<longleftrightarrow> r < q \<or> (r = q \<and> c < m)"
proof (cases "r < q")
  case True
  then have "Suc r \<le> q" by simp
  then have "Suc r * n \<le> q * n" by (rule mult_le_mono1)
  with assms have "r * n + c < q * n + m" by simp
  with True show ?thesis by simp
next
  case False
  show ?thesis
  proof (cases "r = q")
    case True
    then show ?thesis by simp
  next
    case ne: False
    with False have "Suc q \<le> r" by simp
    then have "Suc q * n \<le> r * n" by (rule mult_le_mono1)
    with assms have "\<not> r * n + c < q * n + m" by simp
    with False ne show ?thesis by simp
  qed
qed

lemma index_split:
  fixes r n c len :: nat
  assumes "c < n"
  shows "r * n + c < len \<longleftrightarrow> r < len div n \<or> (r = len div n \<and> c < len mod n)"
proof -
  have "0 < n" using assms by simp
  then have "len mod n < n" by simp
  from index_split_qm [OF assms this, of r "len div n"] show ?thesis by simp
qed

lemma index_columnLength:
  assumes "c < n" "r < ceilDiv len n"
  shows "r * n + c < len \<longleftrightarrow> r < columnLength len n c"
proof -
  have n: "0 < n" using assms by simp
  show ?thesis
    using assms(2) unfolding index_split [OF assms(1)] columnLength_def ceilDiv_eq [OF n]
    by (auto split: if_splits)
qed

lemma columnLength_le: "columnLength len n c \<le> ceilDiv len n"
  by (simp add: columnLength_def)

lemma index_row:
  fixes i n len :: nat
  assumes "0 < n" "i < len"
  shows "i div n < ceilDiv len n"
proof -
  have "i div n \<le> len div n" using assms(2) by (simp add: div_le_mono)
  moreover have "i div n < len div n" if "len mod n = 0"
  proof -
    from that div_mult_mod_eq [of len n] have "len = (len div n) * n" by simp
    with assms have "i < (len div n) * n" by simp
    then show ?thesis using assms(1) by (simp add: less_mult_imp_div_less)
  qed
  ultimately show ?thesis unfolding ceilDiv_eq [OF assms(1)] by (auto split: if_splits)
qed

lemma fold_append_concat: "fold (\<lambda>x res. res @ f x) xs res = res @ concat (map f xs)"
  by (induction xs arbitrary: res) simp_all

lemma concat_prefix:
  "L \<le> R \<Longrightarrow> concat (map (\<lambda>r. if r < L then [f r] else []) [0..<R]) = map f [0..<L]"
proof (induction R arbitrary: L)
  case 0
  then show ?case by simp
next
  case (Suc R)
  show ?case
  proof (cases "L = Suc R")
    case True
    have e: "map (\<lambda>r. if r < Suc R then [f r] else []) [0..<R] =
        map (\<lambda>r. if r < R then [f r] else []) [0..<R]"
      by simp
    show ?thesis using Suc.IH [of R] True by (simp add: e)
  next
    case False
    with Suc.prems have "L \<le> R" by simp
    then show ?thesis using Suc.IH by simp
  qed
qed

lemma fillRowMajor_prefix:
  assumes n: "0 < n" and k: "k \<le> length t"
  shows "fold (\<lambda>i grid. grid[i div n := (grid ! (i div n))[i mod n := [t ! i]]]) [0..<k]
           (replicate (ceilDiv (length t) n) (replicate n [])) =
         cells t n (ceilDiv (length t) n) (\<lambda>r c. r * n + c < k)"
  using k
proof (induction k)
  case 0
  then show ?case using cells_empty [of "ceilDiv (length t) n" n t] by simp
next
  case (Suc k)
  let ?R = "ceilDiv (length t) n"
  let ?g = "cells t n ?R (\<lambda>r c. r * n + c < k)"
  from Suc.prems have k: "k < length t" by simp
  have row: "k div n < ?R" using n k by (rule index_row)
  have col: "k mod n < n" using n by simp
  have "?g[k div n := (?g ! (k div n))[k mod n := [t ! k]]] =
        cells t n ?R (\<lambda>r c. r * n + c < Suc k)"
  proof (rule cells_eqI)
    show "length (?g[k div n := (?g ! (k div n))[k mod n := [t ! k]]]) = ?R"
      by (simp add: cells_length)
  next
    fix r assume "r < ?R"
    then show "length (?g[k div n := (?g ! (k div n))[k mod n := [t ! k]]] ! r) = n"
      by (cases "r = k div n") (simp_all add: cells_length cells_row_length)
  next
    fix r c assume rc: "r < ?R" "c < n"
    have eq: "r * n + c = k \<longleftrightarrow> r = k div n \<and> c = k mod n"
      using rc(2) by (metis div_mult_mod_eq add.commute div_mult_self3 mod_mult_self3 div_less mod_less add_cancel_left_left less_nat_zero_code)
    have less: "r * n + c < Suc k \<longleftrightarrow> r * n + c < k \<or> r * n + c = k" by auto
    show "?g[k div n := (?g ! (k div n))[k mod n := [t ! k]]] ! r ! c =
          (if r * n + c < Suc k then [t ! (r * n + c)] else [])"
    proof (cases "r = k div n")
      case True
      then show ?thesis
        using rc row eq unfolding less
        by (cases "c = k mod n") (auto simp: cells_length cells_row_length cells_nth)
    next
      case False
      then show ?thesis
        using rc eq unfolding less by (auto simp: cells_length cells_nth)
    qed
  qed
  with Suc show ?case by simp
qed

lemma fillRowMajor_cells:
  assumes "0 < n"
  shows "fillRowMajor t n (replicate (ceilDiv (length t) n) (replicate n [])) =
         cells t n (ceilDiv (length t) n) (\<lambda>r c. r * n + c < length t)"
  unfolding fillRowMajor_def using fillRowMajor_prefix [OF assms, of "length t" t] by simp

lemma readColumn_concat:
  "readColumn grid numRows c result = result @ concat (map (\<lambda>r. grid ! r ! c) [0..<numRows])"
proof -
  have "(\<lambda>row result. if grid ! row ! c \<noteq> [] then result @ grid ! row ! c else result) =
        (\<lambda>row result. result @ grid ! row ! c)"
    by (intro ext) simp
  then show ?thesis by (simp add: readColumn_def fold_append_concat)
qed

lemma column_of_cells:
  assumes "c < n"
  shows "concat (map (\<lambda>r. cells t n (ceilDiv (length t) n) (\<lambda>r c. r * n + c < length t) ! r ! c)
           [0..<ceilDiv (length t) n]) = columnText t n c"
proof -
  let ?R = "ceilDiv (length t) n" and ?L = "columnLength (length t) n c"
  have e: "map (\<lambda>r. cells t n ?R (\<lambda>r c. r * n + c < length t) ! r ! c) [0..<?R] =
        map (\<lambda>r. if r < ?L then [t ! (r * n + c)] else []) [0..<?R]"
    using assms by (intro map_cong refl) (simp add: cells_nth index_columnLength)
  show ?thesis
    unfolding e columnText_def
    by (rule concat_prefix [OF columnLength_le])
qed

lemma readColumns_concat:
  "fold (\<lambda>k result. readColumn grid numRows (f k) result) ks result =
   result @ concat (map (\<lambda>k. concat (map (\<lambda>r. grid ! r ! f k) [0..<numRows])) ks)"
  by (simp add: readColumn_concat fold_append_concat)

lemma readRowMajor_concat:
  "readRowMajor grid numRows numCols =
   concat (map (\<lambda>r. concat (map (\<lambda>c. grid ! r ! c) [0..<numCols])) [0..<numRows])"
proof -
  have inner: "fold (\<lambda>col result. result @ grid ! row ! col) [0..<numCols] =
      (\<lambda>result. result @ concat (map (\<lambda>c. grid ! row ! c) [0..<numCols]))" for row
    by (rule ext) (rule fold_append_concat)
  show ?thesis
    unfolding readRowMajor_def inner by (simp add: fold_append_concat)
qed

lemma row_of_cells:
  assumes "r < R"
  shows "concat (map (\<lambda>c. cells t n R (\<lambda>r c. r * n + c < length t) ! r ! c) [0..<n]) =
         take n (drop (r * n) t)"
proof -
  let ?L = "min n (length t - r * n)"
  have e: "map (\<lambda>c. cells t n R (\<lambda>r c. r * n + c < length t) ! r ! c) [0..<n] =
        map (\<lambda>c. if c < ?L then [t ! (r * n + c)] else []) [0..<n]"
    using assms by (intro map_cong refl) (auto simp: cells_nth)
  have "concat (map (\<lambda>c. cells t n R (\<lambda>r c. r * n + c < length t) ! r ! c) [0..<n]) =
        map (\<lambda>c. t ! (r * n + c)) [0..<?L]"
    unfolding e by (rule concat_prefix) simp
  also have "\<dots> = take n (drop (r * n) t)"
  proof (rule nth_equalityI)
    show "length (map (\<lambda>c. t ! (r * n + c)) [0..<?L]) = length (take n (drop (r * n) t))"
      by (simp add: min.commute)
  next
    fix i assume "i < length (map (\<lambda>c. t ! (r * n + c)) [0..<?L])"
    then have i: "i < n" "i < length t - r * n" by simp_all
    then have "r * n \<le> length t" by simp
    with i show "map (\<lambda>c. t ! (r * n + c)) [0..<?L] ! i = take n (drop (r * n) t) ! i"
      by simp
  qed
  finally show ?thesis .
qed

lemma concat_rows: "concat (map (\<lambda>r. take n (drop (r * n) t)) [0..<R]) = take (R * n) t"
proof (induction R)
  case 0
  then show ?case by simp
next
  case (Suc R)
  have "Suc R * n = R * n + n" by simp
  then have "take (Suc R * n) t = take (R * n) t @ take n (drop (R * n) t)"
    by (simp only: take_add)
  with Suc show ?case by simp
qed

lemma ceilDiv_covers:
  assumes "0 < n"
  shows "len \<le> ceilDiv len n * n"
proof -
  have m: "len mod n < n" using assms by simp
  have len: "len div n * n + len mod n = len" by simp
  show ?thesis
  proof (cases "len mod n = 0")
    case True
    with len show ?thesis unfolding ceilDiv_eq [OF assms] by simp
  next
    case False
    have "len \<le> len div n * n + n" using m len by linarith
    with False show ?thesis unfolding ceilDiv_eq [OF assms] by simp
  qed
qed

lemma readRowMajor_cells:
  assumes "0 < n"
  shows "readRowMajor (cells t n (ceilDiv (length t) n) (\<lambda>r c. r * n + c < length t))
           (ceilDiv (length t) n) n = t"
proof -
  let ?R = "ceilDiv (length t) n"
  have e: "map (\<lambda>r. concat (map (\<lambda>c. cells t n ?R (\<lambda>r c. r * n + c < length t) ! r ! c) [0..<n]))
          [0..<?R] = map (\<lambda>r. take n (drop (r * n) t)) [0..<?R]"
    by (intro map_cong refl) (simp add: row_of_cells)
  show ?thesis
    unfolding readRowMajor_concat e concat_rows
    using ceilDiv_covers [OF assms, of "length t"] by simp
qed

lemma cells_cong:
  assumes "\<And>r c. r < R \<Longrightarrow> c < n \<Longrightarrow> P r c = Q r c"
  shows "cells t n R P = cells t n R Q"
  using assms by (intro cells_eqI) (simp_all add: cells_length cells_row_length cells_nth)

lemma fillColumn_cells:
  assumes c: "c < n"
    and cipher: "\<And>r. r < L \<Longrightarrow> cipherText ! (ci + r) = t ! (r * n + c)"
  shows "L \<le> R \<Longrightarrow> ci + L \<le> length cipherText \<Longrightarrow>
    fillColumn cipherText c L (cells t n R P, ci) =
      (cells t n R (\<lambda>r c'. if c' = c \<and> r < L then True else P r c'), ci + L)"
  using cipher
proof (induction L)
  case 0
  then show ?case by (simp add: fillColumn_def)
next
  case (Suc L)
  let ?g = "cells t n R (\<lambda>r c'. if c' = c \<and> r < L then True else P r c')"
  from Suc have IH: "fillColumn cipherText c L (cells t n R P, ci) = (?g, ci + L)" by simp
  from Suc.prems have L: "L < R" "ci + L < length cipherText"
    and tL: "cipherText ! (ci + L) = t ! (L * n + c)" by simp_all
  have "?g[L := (?g ! L)[c := [cipherText ! (ci + L)]]] =
        cells t n R (\<lambda>r c'. if c' = c \<and> r < Suc L then True else P r c')"
  proof (rule cells_eqI)
    show "length (?g[L := (?g ! L)[c := [cipherText ! (ci + L)]]]) = R"
      by (simp add: cells_length)
  next
    fix r assume "r < R"
    then show "length (?g[L := (?g ! L)[c := [cipherText ! (ci + L)]]] ! r) = n"
      by (cases "r = L") (simp_all add: cells_length cells_row_length)
  next
    fix r c' assume rc: "r < R" "c' < n"
    show "?g[L := (?g ! L)[c := [cipherText ! (ci + L)]]] ! r ! c' =
          (if (if c' = c \<and> r < Suc L then True else P r c') then [t ! (r * n + c')] else [])"
    proof (cases "r = L")
      case True
      then show ?thesis
        using rc L(1) c tL
        by (cases "c' = c") (simp_all add: cells_length cells_row_length cells_nth)
    next
      case False
      then show ?thesis
        using rc by (auto simp: cells_length cells_nth)
    qed
  qed
  with IH L(2) show ?case by (simp add: fillColumn_def)
qed

lemma fillColumns_cells:
  fixes ks :: "keyEntry list"
  assumes n: "0 < n"
  shows "(\<And>k. k \<in> set ks \<Longrightarrow> index k < n) \<Longrightarrow>
    cipherText = pre @ concat (map (\<lambda>k. columnText t n (index k)) ks) @ post \<Longrightarrow>
    fold (\<lambda>k. fillColumn cipherText (index k) (columnLength (length t) n (index k))) ks
      (cells t n (ceilDiv (length t) n) (\<lambda>r c. c \<in> S \<and> r * n + c < length t), length pre) =
    (cells t n (ceilDiv (length t) n) (\<lambda>r c. c \<in> S \<union> index ` set ks \<and> r * n + c < length t),
     length pre + length (concat (map (\<lambda>k. columnText t n (index k)) ks)))"
proof (induction ks arbitrary: S pre)
  case Nil
  then show ?case by simp
next
  case (Cons k ks)
  let ?R = "ceilDiv (length t) n" and ?c = "index k"
  let ?L = "columnLength (length t) n ?c"
  let ?col = "columnText t n ?c"
  have c: "?c < n" using Cons.prems(1) by simp
  have len: "length ?col = ?L" by (simp add: columnText_def)
  have cipher: "cipherText = (pre @ ?col) @ concat (map (\<lambda>k. columnText t n (index k)) ks) @ post"
    using Cons.prems(2) by simp
  have nth: "cipherText ! (length pre + r) = t ! (r * n + ?c)" if "r < ?L" for r
  proof -
    have "cipherText ! (length pre + r) = ?col ! r"
      using that len unfolding cipher by (simp add: nth_append)
    with that show ?thesis by (simp add: columnText_def)
  qed
  have bound: "length pre + ?L \<le> length cipherText" unfolding cipher using len by simp
  have step: "fillColumn cipherText ?c ?L
      (cells t n ?R (\<lambda>r c. c \<in> S \<and> r * n + c < length t), length pre) =
      (cells t n ?R (\<lambda>r c. c \<in> insert ?c S \<and> r * n + c < length t), length (pre @ ?col))"
  proof -
    have "cells t n ?R (\<lambda>r c'. if c' = ?c \<and> r < ?L then True
             else c' \<in> S \<and> r * n + c' < length t) =
          cells t n ?R (\<lambda>r c. c \<in> insert ?c S \<and> r * n + c < length t)"
      using index_columnLength [OF c] by (intro cells_cong) auto
    then show ?thesis
      using fillColumn_cells [OF c nth columnLength_le bound,
          where P = "\<lambda>r c. c \<in> S \<and> r * n + c < length t"] len
      by simp
  qed
  have "fold (\<lambda>k. fillColumn cipherText (index k) (columnLength (length t) n (index k))) ks
      (cells t n ?R (\<lambda>r c. c \<in> insert ?c S \<and> r * n + c < length t), length (pre @ ?col)) =
    (cells t n ?R (\<lambda>r c. c \<in> insert ?c S \<union> index ` set ks \<and> r * n + c < length t),
     length (pre @ ?col) + length (concat (map (\<lambda>k. columnText t n (index k)) ks)))"
    using Cons.prems(1) cipher by (intro Cons.IH) simp_all
  with step show ?case by simp
qed

lemma mset_insertBy: "mset (insertBy cmp x xs) = add_mset x (mset xs)"
  by (induction xs) simp_all

lemma mset_sortBy: "mset (sortBy cmp xs) = mset xs"
  by (induction xs) (simp_all add: mset_insertBy)

lemma mset_keyOrder: "mset (map index (keyOrder s)) = mset [0..<length s]"
proof -
  let ?init = "map (\<lambda>i. \<lparr>char = s ! i, index = i\<rparr>) [0..<length s]"
  have "map index ?init = [0..<length s]" by (simp add: map_idI)
  moreover have "mset (map index (keyOrder s)) = mset (map index ?init)"
    unfolding keyOrder_def by (simp only: mset_map mset_sortBy)
  ultimately show ?thesis by (simp only:)
qed

lemma set_keyOrder: "index ` set (keyOrder s) = {0..<length s}"
proof -
  have "set (map index (keyOrder s)) = set [0..<length s]"
    using mset_keyOrder [of s] by (metis set_mset_mset)
  then show ?thesis by simp
qed

lemma sum_columnLength_prefix:
  "sum_list (map (\<lambda>c. if c < m then Suc q else q) [0..<k]) = k * q + min k m"
  by (induction k) (auto simp: min_def)

lemma sum_columnLength:
  assumes "0 < n"
  shows "sum_list (map (columnLength len n) [0..<n]) = len"
proof -
  have m: "len mod n < n" using assms by simp
  have len: "len div n * n + len mod n = len" by simp
  have e: "map (columnLength len n) [0..<n] =
      map (\<lambda>c. if c < len mod n then Suc (len div n) else len div n) [0..<n]"
    using assms by (simp add: columnLength_def ceilDiv_eq)
  have "n * (len div n) + min n (len mod n) = len div n * n + len mod n"
    using m by (simp add: min_def mult.commute)
  then show ?thesis unfolding e sum_columnLength_prefix len .
qed

lemma length_columns:
  assumes "0 < length s"
  shows "length (concat (map (\<lambda>k. columnText t (length s) (index k)) (keyOrder s))) = length t"
proof -
  let ?n = "length s"
  have "length (concat (map (\<lambda>k. columnText t ?n (index k)) (keyOrder s))) =
        sum_list (map (columnLength (length t) ?n) (map index (keyOrder s)))"
    by (simp add: length_concat comp_def columnText_def)
  also have "\<dots> = sum_mset (image_mset (columnLength (length t) ?n) (mset (map index (keyOrder s))))"
    by (metis mset_map sum_mset_sum_list)
  also have "\<dots> = sum_list (map (columnLength (length t) ?n) [0..<?n])"
    unfolding mset_keyOrder by (metis mset_map sum_mset_sum_list)
  also have "\<dots> = length t" using assms by (rule sum_columnLength)
  finally show ?thesis .
qed

lemma columnar_encrypt:
  assumes "keepAZ (toUpperCase key) \<noteq> []"
  shows "columnarTranspositionEncrypt t key =
    Inr (concat (map (\<lambda>k. columnText t (length (keepAZ (toUpperCase key))) (index k))
           (keyOrder (keepAZ (toUpperCase key)))))"
proof -
  let ?s = "keepAZ (toUpperCase key)"
  let ?n = "length ?s" and ?R = "ceilDiv (length t) (length ?s)"
  let ?g = "cells t ?n ?R (\<lambda>r c. r * ?n + c < length t)"
  have n: "0 < ?n" using assms by simp
  have cols: "index k < ?n" if "k \<in> set (keyOrder ?s)" for k
    using that set_keyOrder [of ?s] by auto
  have e: "map (\<lambda>k. concat (map (\<lambda>r. ?g ! r ! index k) [0..<?R])) (keyOrder ?s) =
           map (\<lambda>k. columnText t ?n (index k)) (keyOrder ?s)"
    by (intro map_cong refl) (simp add: column_of_cells cols)
  show ?thesis
    using assms unfolding columnarTranspositionEncrypt_def Let_def
      fillRowMajor_cells [OF n] readColumns_concat e
    by simp
qed

lemma columnar_decrypt:
  assumes "keepAZ (toUpperCase key) \<noteq> []"
  shows "columnarTranspositionDecrypt
      (concat (map (\<lambda>k. columnText t (length (keepAZ (toUpperCase key))) (index k))
           (keyOrder (keepAZ (toUpperCase key))))) key = Inr t"
proof -
  let ?s = "keepAZ (toUpperCase key)"
  let ?n = "length ?s" and ?R = "ceilDiv (length t) (length ?s)"
  let ?c = "concat (map (\<lambda>k. columnText t ?n (index k)) (keyOrder ?s))"
  have n: "0 < ?n" using assms by simp
  have len: "length ?c = length t" using n by (rule length_columns)
  have cols: "index k < ?n" if "k \<in> set (keyOrder ?s)" for k
    using that set_keyOrder [of ?s] by auto
  have f: "(\<lambda>k. fillColumn ?c (index k)
              (if length t mod ?n = 0 \<or> index k < length t mod ?n then ?R else ?R - 1)) =
           (\<lambda>k. fillColumn ?c (index k) (columnLength (length t) ?n (index k)))"
    by (simp add: columnLength_def)
  have start: "replicate ?R (replicate ?n []) =
      cells t ?n ?R (\<lambda>r c. c \<in> {} \<and> r * ?n + c < length t)"
    using cells_empty [of ?R ?n t] by simp
  have filled: "cells t ?n ?R (\<lambda>r c. c \<in> {} \<union> index ` set (keyOrder ?s) \<and> r * ?n + c < length t) =
      cells t ?n ?R (\<lambda>r c. r * ?n + c < length t)"
    using set_keyOrder [of ?s] by (intro cells_cong) simp
  have "fold (\<lambda>k. fillColumn ?c (index k) (columnLength (length t) ?n (index k))) (keyOrder ?s)
      (cells t ?n ?R (\<lambda>r c. c \<in> {} \<and> r * ?n + c < length t), length ([] :: jsstring)) =
    (cells t ?n ?R (\<lambda>r c. c \<in> {} \<union> index ` set (keyOrder ?s) \<and> r * ?n + c < length t),
     length ([] :: jsstring) + length ?c)"
    using cols by (intro fillColumns_cells [OF n, where post = "[]"]) simp_all
  then have "fst (fold (\<lambda>k. fillColumn ?c (index k) (columnLength (length t) ?n (index k)))
      (keyOrder ?s) (replicate ?R (replicate ?n []), 0)) =
      cells t ?n ?R (\<lambda>r c. r * ?n + c < length t)"
    unfolding start filled by simp
  then show ?thesis
    using assms unfolding columnarTranspositionDecrypt_def Let_def len f
    by (simp add: readRowMajor_cells [OF n])
qed

text \<open>
  Claim C1. For every key whose sanitized form (upper-cased, everything but the
  letters \<open>A\<close> to \<open>Z\<close> removed) is not empty and every text \<open>t\<close>, decrypting with the
  key what \<open>columnarTranspositionEncrypt\<close> made of \<open>t\<close> returns \<open>t\<close> exactly. The
  decryption is the one of the source: it takes \<open>numRows\<close> characters for a column
  when \<open>fullCols = len % numCols\<close> is 0 or the original index of the column is below
  \<open>fullCols\<close>, and \<open>numRows - 1\<close> otherwise.
\<close>

theorem columnar_roundtrip:
  assumes "keepAZ (toUpperCase k) \<noteq> []"
  shows "\<exists>c. columnarTranspositionEncrypt t k = Inr c \<and> columnarTranspositionDecrypt c k = Inr t"
  using columnar_encrypt [OF assms] columnar_decrypt [OF assms] by simp

theorem columnar_roundtrip_witness:
  "keepAZ (toUpperCase (str ''Zebra!'')) \<noteq> [] \<and>
   columnarTranspositionEncrypt (str ''ATTACKATDAWN'') (str ''Zebra!'') = Inr (str ''CATTTANADAKW'') \<and>
   columnarTranspositionDecrypt (str ''CATTTANADAKW'') (str ''Zebra!'') = Inr (str ''ATTACKATDAWN'')"
proof -
  have h: "keepAZ (toUpperCase (str ''Zebra!'')) \<noteq> []" by code_simp
  have e: "columnarTranspositionEncrypt (str ''ATTACKATDAWN'') (str ''Zebra!'') =
      Inr (str ''CATTTANADAKW'')" by code_simp
  from columnar_roundtrip [OF h, of "str ''ATTACKATDAWN''"] e h show ?thesis by simp
qed

section \<open>Properties of the rail fence cipher\<close>

lemma onFence_start: "2 \<le> rails \<Longrightarrow> onFence rails (0, 1)"
  by (simp add: onFence_def)

lemma onFence_zigzag: "2 \<le> rails \<Longrightarrow> onFence rails st \<Longrightarrow> onFence rails (zigzag rails st)"
  by (cases st) (auto simp: onFence_def zigzag_def Let_def)

lemma onFence_rail: "onFence rails st \<Longrightarrow> 0 \<le> fst st \<and> fst st < rails"
  by (cases st) (auto simp: onFence_def)

lemma length_railPath: "length (railPath rails st k) = k"
  by (induction k arbitrary: st) simp_all

lemma railPath_bound:
  "2 \<le> rails \<Longrightarrow> onFence rails st \<Longrightarrow> \<forall>j\<in>set (railPath rails st k). j < nat rails"
proof (induction k arbitrary: st)
  case 0
  then show ?case by simp
next
  case (Suc k)
  from Suc.prems onFence_rail [of rails st] have "nat (fst st) < nat rails" by simp
  moreover have "\<forall>j\<in>set (railPath rails (zigzag rails st) k). j < nat rails"
    using Suc.prems by (intro Suc.IH onFence_zigzag)
  ultimately show ?case by simp
qed

lemma pushChars_fold:
  "2 \<le> rails \<Longrightarrow> onFence rails st \<Longrightarrow> length fence = nat rails \<Longrightarrow>
   pushChars rails chs fence st =
     Inr (fold (\<lambda>(j, ch) fence. fence[j := fence ! j @ [ch]])
           (zip (railPath rails st (length chs)) chs) fence)"
proof (induction chs arbitrary: fence st)
  case Nil
  then show ?case by (cases st) simp
next
  case (Cons ch chs)
  obtain rail direction where st: "st = (rail, direction)" by (cases st)
  from Cons.prems onFence_rail [of rails st] st have r: "0 \<le> rail" "rail < int (length fence)"
    by simp_all
  have "pushChars rails chs (fence[nat rail := fence ! nat rail @ [ch]]) (zigzag rails st) =
     Inr (fold (\<lambda>(j, ch) fence. fence[j := fence ! j @ [ch]])
           (zip (railPath rails (zigzag rails st) (length chs)) chs)
           (fence[nat rail := fence ! nat rail @ [ch]]))"
    using Cons.prems by (intro Cons.IH onFence_zigzag) simp_all
  with r st show ?case by simp
qed

lemma markCells_fold:
  "2 \<le> rails \<Longrightarrow> onFence rails st \<Longrightarrow> length fence = nat rails \<Longrightarrow>
   markCells rails is fence st =
     Inr (fold (\<lambda>(j, i) fence. fence[j := (fence ! j)[i := Str (str ''*'')]])
           (zip (railPath rails st (length is)) is) fence)"
proof (induction "is" arbitrary: fence st)
  case Nil
  then show ?case by (cases st) simp
next
  case (Cons i "is")
  obtain rail direction where st: "st = (rail, direction)" by (cases st)
  from Cons.prems onFence_rail [of rails st] st have r: "0 \<le> rail" "rail < int (length fence)"
    by simp_all
  have "markCells rails is (fence[nat rail := (fence ! nat rail)[i := Str (str ''*'')]])
       (zigzag rails st) =
     Inr (fold (\<lambda>(j, i) fence. fence[j := (fence ! j)[i := Str (str ''*'')]])
           (zip (railPath rails (zigzag rails st) (length is)) is)
           (fence[nat rail := (fence ! nat rail)[i := Str (str ''*'')]]))"
    using Cons.prems by (intro Cons.IH onFence_zigzag) simp_all
  with r st show ?case by simp
qed

lemma readCells_concat:
  "2 \<le> rails \<Longrightarrow> onFence rails st \<Longrightarrow> length fence = nat rails \<Longrightarrow>
   readCells rails is fence st result =
     Inr (result @ concat (map (\<lambda>(j, i). cellText (fence ! j ! i))
           (zip (railPath rails st (length is)) is)))"
proof (induction "is" arbitrary: st result)
  case Nil
  then show ?case by (cases st) simp
next
  case (Cons i "is")
  obtain rail direction where st: "st = (rail, direction)" by (cases st)
  from Cons.prems onFence_rail [of rails st] st have r: "0 \<le> rail" "rail < int (length fence)"
    by simp_all
  have "readCells rails is fence (zigzag rails st) (result @ cellText (fence ! nat rail ! i)) =
     Inr ((result @ cellText (fence ! nat rail ! i)) @ concat (map (\<lambda>(j, i). cellText (fence ! j ! i))
           (zip (railPath rails (zigzag rails st) (length is)) is)))"
    using Cons.prems by (intro Cons.IH onFence_zigzag) simp_all
  with r st show ?case by simp
qed

lemma grid_nth: "j < n \<Longrightarrow> i < len \<Longrightarrow> gridOf n len f ! j ! i = f j i"
  and grid_length: "length (gridOf n len f) = n"
  and grid_row_length: "j < n \<Longrightarrow> length (gridOf n len f ! j) = len"
  by (simp_all add: gridOf_def)

lemma grid_cong:
  "(\<And>j i. j < n \<Longrightarrow> i < len \<Longrightarrow> f j i = g j i) \<Longrightarrow> gridOf n len f = gridOf n len g"
  by (simp add: gridOf_def)

lemma grid_replicate: "replicate n (replicate len x) = gridOf n len (\<lambda>j i. x)"
  by (simp add: gridOf_def map_replicate_const)

lemma grid_update:
  assumes "j < n" "i < len"
  shows "(gridOf n len f)[j := (gridOf n len f ! j)[i := v]] =
         gridOf n len (\<lambda>j' i'. if j' = j \<and> i' = i then v else f j' i')"
proof (rule nth_equalityI)
  show "length ((gridOf n len f)[j := (gridOf n len f ! j)[i := v]]) =
        length (gridOf n len (\<lambda>j' i'. if j' = j \<and> i' = i then v else f j' i'))"
    by (simp add: grid_length)
next
  fix j' assume "j' < length ((gridOf n len f)[j := (gridOf n len f ! j)[i := v]])"
  then have j': "j' < n" by (simp add: grid_length)
  show "(gridOf n len f)[j := (gridOf n len f ! j)[i := v]] ! j' =
        gridOf n len (\<lambda>j' i'. if j' = j \<and> i' = i then v else f j' i') ! j'"
  proof (rule nth_equalityI)
    show "length ((gridOf n len f)[j := (gridOf n len f ! j)[i := v]] ! j') =
          length (gridOf n len (\<lambda>j' i'. if j' = j \<and> i' = i then v else f j' i') ! j')"
      using j' assms by (cases "j' = j") (simp_all add: grid_length grid_row_length)
  next
    fix i' assume "i' < length ((gridOf n len f)[j := (gridOf n len f ! j)[i := v]] ! j')"
    then have i': "i' < len"
      using j' assms by (cases "j' = j") (simp_all add: grid_length grid_row_length)
    show "(gridOf n len f)[j := (gridOf n len f ! j)[i := v]] ! j' ! i' =
          gridOf n len (\<lambda>j' i'. if j' = j \<and> i' = i then v else f j' i') ! j' ! i'"
      using j' i' assms
      by (cases "j' = j"; cases "i' = i") (simp_all add: grid_length grid_row_length grid_nth)
  qed
qed

lemma push_buckets:
  "\<forall>x\<in>set xs. fst x < length fence \<Longrightarrow>
   fold (\<lambda>(j, ch) fence. fence[j := fence ! j @ [ch]]) xs fence =
     map (\<lambda>j. fence ! j @ map snd (filter (\<lambda>x. fst x = j) xs)) [0..<length fence]"
proof (induction xs arbitrary: fence)
  case Nil
  then show ?case by (simp add: map_nth)
next
  case (Cons x xs)
  obtain j ch where x: "x = (j, ch)" by (cases x)
  let ?f = "fence[j := fence ! j @ [ch]]"
  from Cons.prems x have j: "j < length fence" by simp
  have "fold (\<lambda>(j, ch) fence. fence[j := fence ! j @ [ch]]) xs ?f =
     map (\<lambda>j. ?f ! j @ map snd (filter (\<lambda>x. fst x = j) xs)) [0..<length ?f]"
    using Cons.prems by (intro Cons.IH) simp
  also have "\<dots> = map (\<lambda>j'. fence ! j' @ map snd (filter (\<lambda>x. fst x = j') (x # xs)))
      [0..<length fence]"
    using j x by (auto simp: nth_list_update)
  finally show ?case using x by simp
qed

lemma zip_indices:
  assumes "length p = length xs"
  shows "zip p xs = map (\<lambda>i. (p ! i, xs ! i)) [0..<length xs]"
  using assms by (intro nth_equalityI) simp_all

lemma bucket_indices:
  assumes "length p = length xs"
  shows "map snd (filter (\<lambda>x. fst x = j) (zip p xs)) = map ((!) xs) (onRail p j)"
  unfolding zip_indices [OF assms] onRail_def assms
  by (simp add: filter_map comp_def)

lemma concat_singletons:
  assumes "\<forall>i\<in>set is. i < length t"
  shows "concat (map ((!) (map (\<lambda>c. [c]) t)) is) = map ((!) t) is"
  using assms by (induction "is") simp_all

lemma onRail_bound: "i \<in> set (onRail p j) \<Longrightarrow> i < length p \<and> p ! i = j"
  by (simp add: onRail_def)

lemma concat_concat_map: "concat (concat (map f xs)) = concat (map (\<lambda>x. concat (f x)) xs)"
  by (induction xs) simp_all

lemma push_units:
  fixes t :: jsstring
  assumes p: "length p = length t" "\<forall>j\<in>set p. j < n"
  shows "concat (concat (fold (\<lambda>(j, ch) fence. fence[j := fence ! j @ [ch]])
            (zip p (map (\<lambda>c. [c]) t)) (replicate n []))) =
         concat (map (\<lambda>j. map ((!) t) (onRail p j)) [0..<n])"
proof -
  have in_range: "\<forall>x\<in>set (zip p (map (\<lambda>c. [c]) t)). fst x < length (replicate n ([] :: jsstring list))"
    using p(2) by (auto dest: set_zip_leftD)
  have rows: "map (\<lambda>j. replicate n [] ! j @ map snd (filter (\<lambda>x. fst x = j) (zip p (map (\<lambda>c. [c]) t))))
        [0..<n] = map (\<lambda>j. map ((!) (map (\<lambda>c. [c]) t)) (onRail p j)) [0..<n]"
    using p(1) by (intro map_cong refl) (simp add: bucket_indices)
  have "concat (concat (map (\<lambda>j. map ((!) (map (\<lambda>c. [c]) t)) (onRail p j)) [0..<n])) =
        concat (map (\<lambda>j. concat (map ((!) (map (\<lambda>c. [c]) t)) (onRail p j))) [0..<n])"
    by (rule concat_concat_map)
  also have "\<dots> = concat (map (\<lambda>j. map ((!) t) (onRail p j)) [0..<n])"
  proof -
    have "map (\<lambda>j. concat (map ((!) (map (\<lambda>c. [c]) t)) (onRail p j))) [0..<n] =
          map (\<lambda>j. map ((!) t) (onRail p j)) [0..<n]"
      using p(1) onRail_bound [of _ p] by (intro map_cong refl concat_singletons) fastforce
    then show ?thesis by (simp only:)
  qed
  finally show ?thesis
    unfolding push_buckets [OF in_range] by (simp only: length_replicate rows)
qed

lemma zip_take_Suc:
  assumes "m < length p"
  shows "zip (take (Suc m) p) [0..<Suc m] = zip (take m p) [0..<m] @ [(p ! m, m)]"
  using assms by (simp add: take_Suc_conv_app_nth)

lemma mark_prefix:
  assumes p: "\<forall>j\<in>set p. j < n"
  shows "m \<le> length p \<Longrightarrow>
    fold (\<lambda>(j, i) fence. fence[j := (fence ! j)[i := Str (str ''*'')]])
      (zip (take m p) [0..<m]) (gridOf n (length p) (\<lambda>j i. Null)) =
    gridOf n (length p) (\<lambda>j i. if i < m \<and> p ! i = j then Str (str ''*'') else Null)"
proof (induction m)
  case 0
  then show ?case by simp
next
  case (Suc m)
  then have m: "m < length p" by simp
  with p have j: "p ! m < n" by simp
  let ?g = "gridOf n (length p) (\<lambda>j i. if i < m \<and> p ! i = j then Str (str ''*'') else Null)"
  have "?g[p ! m := (?g ! (p ! m))[m := Str (str ''*'')]] =
        gridOf n (length p) (\<lambda>j' i'. if j' = p ! m \<and> i' = m then Str (str ''*'')
           else if i' < m \<and> p ! i' = j' then Str (str ''*'') else Null)"
    using j m by (rule grid_update)
  also have "\<dots> = gridOf n (length p)
      (\<lambda>j i. if i < Suc m \<and> p ! i = j then Str (str ''*'') else Null)"
    by (intro grid_cong) (auto simp: less_Suc_eq)
  finally show ?case unfolding zip_take_Suc [OF m] using Suc m by simp
qed

lemma mark_all:
  assumes "\<forall>j\<in>set p. j < n"
  shows "fold (\<lambda>(j, i) fence. fence[j := (fence ! j)[i := Str (str ''*'')]])
      (zip p [0..<length p]) (replicate n (replicate (length p) Null)) =
    gridOf n (length p) (\<lambda>j i. if p ! i = j then Str (str ''*'') else Null)"
proof -
  have "gridOf n (length p) (\<lambda>j i. if i < length p \<and> p ! i = j then Str (str ''*'') else Null) =
        gridOf n (length p) (\<lambda>j i. if p ! i = j then Str (str ''*'') else Null)"
    by (intro grid_cong) simp
  then show ?thesis
    using mark_prefix [OF assms, of "length p"] by (simp add: grid_replicate)
qed

lemma onRail_prefix:
  assumes "m < length p"
  shows "filter (\<lambda>i. p ! i = r) [0..<Suc m] =
         filter (\<lambda>i. p ! i = r) [0..<m] @ (if p ! m = r then [m] else [])"
  by simp

lemma onRail_split:
  assumes "m < length p" "p ! m = r"
  shows "onRail p r = filter (\<lambda>i. p ! i = r) [0..<m] @ m # filter (\<lambda>i. p ! i = r) [Suc m..<length p]"
proof -
  have "[0..<length p] = [0..<m] @ [m..<length p]"
    using upt_add_eq_append [of 0 m "length p - m"] assms(1) by simp
  also have "[m..<length p] = m # [Suc m..<length p]"
    using assms(1) by (rule upt_conv_Cons)
  finally have "[0..<length p] = [0..<m] @ m # [Suc m..<length p]" .
  then show ?thesis using assms(2) unfolding onRail_def by simp
qed

lemma fillRow_prefix:
  fixes t cipherText :: jsstring
  assumes r: "r < n"
    and len: "length p = length t" "length cipherText = length t"
    and row: "\<And>i. i < length t \<Longrightarrow> f r i = (if p ! i = r then Str (str ''*'') else Null)"
    and cipher: "cipherText = pre @ map ((!) t) (onRail p r) @ post"
  shows "m \<le> length t \<Longrightarrow>
    fold (fillCell cipherText r) [0..<m] (gridOf n (length t) f, length pre) =
      (gridOf n (length t) (\<lambda>j i. if j = r \<and> i < m \<and> p ! i = r then Str [t ! i] else f j i),
       length pre + length (filter (\<lambda>i. p ! i = r) [0..<m]))"
proof (induction m)
  case 0
  then show ?case by simp
next
  case (Suc m)
  then have m: "m < length t" by simp
  let ?g = "gridOf n (length t) (\<lambda>j i. if j = r \<and> i < m \<and> p ! i = r then Str [t ! i] else f j i)"
  let ?k = "length pre + length (filter (\<lambda>i. p ! i = r) [0..<m])"
  have cell: "?g ! r ! m = (if p ! m = r then Str (str ''*'') else Null)"
    using r m row by (simp add: grid_nth)
  have step: "fillCell cipherText r m (?g, ?k) =
      (gridOf n (length t) (\<lambda>j i. if j = r \<and> i < Suc m \<and> p ! i = r then Str [t ! i] else f j i),
       length pre + length (filter (\<lambda>i. p ! i = r) [0..<Suc m]))"
  proof (cases "p ! m = r")
    case True
    let ?before = "filter (\<lambda>i. p ! i = r) [0..<m]"
    have split: "onRail p r = ?before @ m # filter (\<lambda>i. p ! i = r) [Suc m..<length p]"
      using m len(1) True by (intro onRail_split) simp_all
    have k: "?k < length cipherText" unfolding cipher split by simp
    have "cipherText ! ?k = (map ((!) t) (onRail p r) @ post) ! length ?before"
      unfolding cipher by (simp add: nth_append)
    also have "\<dots> = map ((!) t) (onRail p r) ! length ?before"
      unfolding split by (simp add: nth_append)
    also have "\<dots> = t ! m"
      unfolding split by (simp add: nth_append)
    finally have ch: "cipherText ! ?k = t ! m" .
    have "?g[r := (?g ! r)[m := Str [t ! m]]] =
        gridOf n (length t) (\<lambda>j' i'. if j' = r \<and> i' = m then Str [t ! m]
           else if j' = r \<and> i' < m \<and> p ! i' = r then Str [t ! i'] else f j' i')"
      using r m by (rule grid_update)
    also have "\<dots> = gridOf n (length t)
        (\<lambda>j i. if j = r \<and> i < Suc m \<and> p ! i = r then Str [t ! i] else f j i)"
      using True by (intro grid_cong) (auto simp: less_Suc_eq)
    finally show ?thesis using True cell k ch by (simp add: fillCell_def)
  next
    case False
    have "?g = gridOf n (length t)
        (\<lambda>j i. if j = r \<and> i < Suc m \<and> p ! i = r then Str [t ! i] else f j i)"
      using False by (intro grid_cong) (auto simp: less_Suc_eq)
    then show ?thesis using False cell by (simp add: fillCell_def)
  qed
  from Suc have "fold (fillCell cipherText r) [0..<m] (gridOf n (length t) f, length pre) = (?g, ?k)"
    by simp
  with step show ?case by simp
qed

lemma upt_split:
  assumes "k < n"
  shows "[0..<n] = [0..<k] @ k # [Suc k..<n]"
proof -
  have "[0..<n] = [0..<k] @ [k..<n]"
    using upt_add_eq_append [of 0 k "n - k"] assms by simp
  also have "[k..<n] = k # [Suc k..<n]" using assms by (rule upt_conv_Cons)
  finally show ?thesis .
qed

lemma fillRows_prefix:
  fixes t cipherText :: jsstring
  assumes len: "length p = length t" "length cipherText = length t"
    and cipher: "cipherText = concat (map (\<lambda>r. map ((!) t) (onRail p r)) [0..<n])"
  shows "k \<le> n \<Longrightarrow>
    fold (\<lambda>r. fold (fillCell cipherText r) [0..<length t]) [0..<k]
      (gridOf n (length t) (\<lambda>j i. if p ! i = j then Str (str ''*'') else Null), 0) =
    (gridOf n (length t)
       (\<lambda>j i. if p ! i = j then (if j < k then Str [t ! i] else Str (str ''*'')) else Null),
     length (concat (map (\<lambda>r. map ((!) t) (onRail p r)) [0..<k])))"
proof (induction k)
  case 0
  then show ?case by (simp cong: if_cong)
next
  case (Suc k)
  then have k: "k < n" by simp
  let ?row = "\<lambda>r. map ((!) t) (onRail p r)"
  let ?f = "\<lambda>j i. if p ! i = j then (if j < k then Str [t ! i] else Str (str ''*'')) else Null"
  let ?pre = "concat (map ?row [0..<k])" and ?post = "concat (map ?row [Suc k..<n])"
  have c: "cipherText = ?pre @ map ((!) t) (onRail p k) @ ?post"
    unfolding cipher upt_split [OF k] by simp
  have row: "?f k i = (if p ! i = k then Str (str ''*'') else Null)" for i by simp
  have "fold (fillCell cipherText k) [0..<length t] (gridOf n (length t) ?f, length ?pre) =
      (gridOf n (length t) (\<lambda>j i. if j = k \<and> i < length t \<and> p ! i = k then Str [t ! i] else ?f j i),
       length ?pre + length (filter (\<lambda>i. p ! i = k) [0..<length t]))"
    using k len row c by (intro fillRow_prefix) simp_all
  moreover have "gridOf n (length t)
        (\<lambda>j i. if j = k \<and> i < length t \<and> p ! i = k then Str [t ! i] else ?f j i) =
      gridOf n (length t)
        (\<lambda>j i. if p ! i = j then (if j < Suc k then Str [t ! i] else Str (str ''*'')) else Null)"
    by (intro grid_cong) (auto simp: less_Suc_eq)
  moreover have "length ?pre + length (filter (\<lambda>i. p ! i = k) [0..<length t]) =
      length (concat (map ?row [0..<Suc k]))"
    using len(1) by (simp add: onRail_def)
  moreover from Suc have "fold (\<lambda>r. fold (fillCell cipherText r) [0..<length t]) [0..<k]
      (gridOf n (length t) (\<lambda>j i. if p ! i = j then Str (str ''*'') else Null), 0) =
      (gridOf n (length t) ?f, length ?pre)"
    by simp
  ultimately show ?case by simp
qed

lemma sum_indicator:
  "a < n \<Longrightarrow> sum_list (map (\<lambda>r. if a = r then 1 else 0) [0..<n]) = (1 :: nat)"
proof (induction n)
  case 0
  then show ?case by simp
next
  case (Suc n)
  show ?case
  proof (cases "a = n")
    case True
    have "map (\<lambda>r. if n = r then 1 else 0 :: nat) [0..<n] = map (\<lambda>r. 0) [0..<n]"
      by (intro map_cong refl) simp
    then have "sum_list (map (\<lambda>r. if n = r then 1 else 0 :: nat) [0..<n]) = 0"
      by (simp only: sum_list_0)
    with True show ?thesis by simp
  next
    case False
    with Suc show ?thesis by simp
  qed
qed

lemma length_rails:
  "\<forall>i\<in>set is. p ! i < n \<Longrightarrow>
   sum_list (map (\<lambda>r. length (filter (\<lambda>i. p ! i = r) is)) [0..<n]) = length is"
proof (induction "is")
  case Nil
  then show ?case by simp
next
  case (Cons i "is")
  have "map (\<lambda>r. length (filter (\<lambda>i. p ! i = r) (i # is))) [0..<n] =
        map (\<lambda>r. (if p ! i = r then 1 else 0) + length (filter (\<lambda>i. p ! i = r) is)) [0..<n]"
    by (intro map_cong refl) simp
  then have "sum_list (map (\<lambda>r. length (filter (\<lambda>i. p ! i = r) (i # is))) [0..<n]) =
        sum_list (map (\<lambda>r. if p ! i = r then 1 else 0) [0..<n]) +
        sum_list (map (\<lambda>r. length (filter (\<lambda>i. p ! i = r) is)) [0..<n])"
    by (simp only: sum_list_addf)
  with Cons show ?case by (simp add: sum_indicator)
qed

lemma length_rail_texts:
  assumes "\<forall>j\<in>set p. j < n"
  shows "length (concat (map (\<lambda>r. map ((!) t) (onRail p r)) [0..<n])) = length p"
proof -
  have "length (concat (map (\<lambda>r. map ((!) t) (onRail p r)) [0..<n])) =
        sum_list (map (\<lambda>r. length (filter (\<lambda>i. p ! i = r) [0..<length p])) [0..<n])"
    by (simp add: length_concat comp_def onRail_def)
  also have "\<dots> = length [0..<length p]"
    using assms by (intro length_rails) simp
  finally show ?thesis by simp
qed

lemma read_filled:
  fixes t :: jsstring
  assumes "length p = length t" "\<forall>j\<in>set p. j < n"
  shows "concat (map (\<lambda>(j, i). cellText
            (gridOf n (length t) (\<lambda>j i. if p ! i = j then Str [t ! i] else Null) ! j ! i))
          (zip p [0..<length t])) = t"
proof -
  let ?F = "gridOf n (length t) (\<lambda>j i. if p ! i = j then Str [t ! i] else Null)"
  have "zip p [0..<length t] = map (\<lambda>i. (p ! i, i)) [0..<length t]"
    using assms(1) by (intro nth_equalityI) simp_all
  then have "map (\<lambda>(j, i). cellText (?F ! j ! i)) (zip p [0..<length t]) =
      map (\<lambda>i. cellText (?F ! (p ! i) ! i)) [0..<length t]"
    by (simp add: comp_def)
  also have "\<dots> = map (\<lambda>i. [t ! i]) [0..<length t]"
    using assms by (intro map_cong refl) (simp add: grid_nth)
  also have "\<dots> = map (\<lambda>c. [c]) (map ((!) t) [0..<length t])" by (simp add: comp_def)
  also have "\<dots> = map (\<lambda>c. [c]) t" by (simp only: map_nth)
  finally show ?thesis by simp
qed

lemma length_codePoints_units:
  "codePoints t = map (\<lambda>c. [c]) t \<Longrightarrow> length (codePoints t) = length t"
  by simp

lemma codePoints_units:
  "\<forall>c\<in>set t. \<not> isHighSurrogate c \<Longrightarrow> codePoints t = map (\<lambda>c. [c]) t"
  by (induction t rule: codePoints.induct) simp_all

lemma railFenceDecrypt_nonempty:
  assumes "2 \<le> n" "c \<noteq> []" "n \<le> 4294967295"
  shows "railFenceDecrypt c (Integer n) =
    (case markCells n [0..<length c] (replicate (nat n) (replicate (length c) Null)) (0, 1) of
       Inl e \<Rightarrow> Inl e
     | Inr fence \<Rightarrow> readCells n [0..<length c] (fillCells c (nat n) fence) (0, 1) [])"
  using assms by (simp add: railFenceDecrypt_def Let_def)

text \<open>
  Where the loop of the encryption steps through the text one code unit at a
  time, that is, where no high surrogate is followed by a low one, decryption
  undoes encryption for every number of rails from 2 to \<open>2^32 - 1\<close>, the numbers
  for which the fence can be built.
\<close>

lemma rail_fence_units:
  assumes n: "2 \<le> n" and small: "n \<le> 4294967295"
    and units: "codePoints t = map (\<lambda>c. [c]) t"
  shows "\<exists>c. railFenceEncrypt t (Integer n) = Inr c \<and> railFenceDecrypt c (Integer n) = Inr t"
proof -
  let ?p = "railPath n (0, 1) (length t)"
  let ?c = "concat (map (\<lambda>r. map ((!) t) (onRail ?p r)) [0..<nat n])"
  have start: "onFence n (0, 1)" using n by (rule onFence_start)
  have p: "length ?p = length t" "\<forall>j\<in>set ?p. j < nat n"
    using railPath_bound [OF n start] by (simp_all add: length_railPath)
  have clen: "length ?c = length t" using length_rail_texts [OF p(2), of t] p(1) by simp
  have "pushChars n (codePoints t) (replicate (nat n) []) (0, 1) =
      Inr (fold (\<lambda>(j, ch) fence. fence[j := fence ! j @ [ch]])
             (zip ?p (map (\<lambda>c. [c]) t)) (replicate (nat n) []))"
    using pushChars_fold [OF n start, of "replicate (nat n) []" "codePoints t"] units by simp
  then have enc: "railFenceEncrypt t (Integer n) = Inr ?c"
    using n small push_units [OF p] by (simp add: railFenceEncrypt_def)
  have dec: "railFenceDecrypt ?c (Integer n) = Inr t"
  proof (cases "?c = []")
    case True
    with clen have "t = []" by simp
    with True n show ?thesis by (simp add: railFenceDecrypt_def)
  next
    case False
    let ?G = "gridOf (nat n) (length t) (\<lambda>j i. if ?p ! i = j then Str (str ''*'') else Null)"
    let ?F = "gridOf (nat n) (length t) (\<lambda>j i. if ?p ! i = j then Str [t ! i] else Null)"
    have "markCells n [0..<length t] (replicate (nat n) (replicate (length t) Null)) (0, 1) =
        Inr (fold (\<lambda>(j, i) fence. fence[j := (fence ! j)[i := Str (str ''*'')]])
               (zip ?p [0..<length t]) (replicate (nat n) (replicate (length t) Null)))"
      using markCells_fold [OF n start, of "replicate (nat n) (replicate (length t) Null)"
          "[0..<length t]"] by simp
    then have mark: "markCells n [0..<length t] (replicate (nat n) (replicate (length t) Null))
        (0, 1) = Inr ?G"
      using mark_all [OF p(2)] p(1) by simp
    have "fold (\<lambda>r. fold (fillCell ?c r) [0..<length t]) [0..<nat n] (?G, 0) =
        (gridOf (nat n) (length t)
           (\<lambda>j i. if ?p ! i = j then (if j < nat n then Str [t ! i] else Str (str ''*'')) else Null),
         length (concat (map (\<lambda>r. map ((!) t) (onRail ?p r)) [0..<nat n])))"
      using p(1) clen by (intro fillRows_prefix) simp_all
    moreover have "gridOf (nat n) (length t)
           (\<lambda>j i. if ?p ! i = j then (if j < nat n then Str [t ! i] else Str (str ''*'')) else Null)
        = ?F"
      by (intro grid_cong) simp
    ultimately have fill: "fillCells ?c (nat n) ?G = ?F"
      by (simp add: fillCells_def clen)
    have "readCells n [0..<length t] ?F (0, 1) [] =
        Inr ([] @ concat (map (\<lambda>(j, i). cellText (?F ! j ! i)) (zip ?p [0..<length t])))"
      using readCells_concat [OF n start, of ?F "[0..<length t]" "[]"] by (simp add: grid_length)
    then have read: "readCells n [0..<length t] ?F (0, 1) [] = Inr t"
      using read_filled [OF p] by simp
    show ?thesis
      unfolding railFenceDecrypt_nonempty [OF n False small] clen mark
      by (simp only: sum.case fill read)
  qed
  from enc dec show ?thesis by blast
qed

text \<open>
  Claim C4 says that \<open>railFenceDecrypt\<close> undoes \<open>railFenceEncrypt\<close> on every
  non-empty text. The encryption walks the text by code points and the decryption
  by code units: on a text with a surrogate pair, here U+1F600 followed by \<open>ab\<close>,
  on two rails, the pair stays together on its rail in the ciphertext, and the
  decryption, which counts it as two positions, returns the code units in another
  order.
\<close>

theorem rail_fence_surrogate_pair:
  "railFenceEncrypt [55357, 56832, 97, 98] (Integer 2) = Inr [55357, 56832, 98, 97] \<and>
   railFenceDecrypt [55357, 56832, 98, 97] (Integer 2) = Inr [55357, 98, 56832, 97]"
  by code_simp

end
